theory Spec2Isabelle
  imports
    Main
    "HOL-Library.Sublist"
    "HOL-Library.Multiset"
    "HOL-Library.Char_ord"
    "HOL-Library.List_Lexorder"
begin

section \<open>Python values\<close>

text \<open>
  The records of memoryman are Python dictionaries from field names to dynamically typed
  values. The values modelled here are \<open>None\<close>, booleans, integers, strings, lists and
  string-keyed dictionaries. A string is a list of code points below 256; a dictionary is
  the list of its items in insertion order, so a well-formed dictionary has distinct keys.
  Floating-point numbers are not part of the model.
\<close>

text \<open>
  The exceptions of the model. \<open>OutsideModel\<close> marks a JSON text whose value is not one
  of the values above (a float literal, \<open>NaN\<close>, an escape above \<open>\u00ff\<close>);
  \<open>OutOfFuel\<close> is the end of the recursion budget of the JSON parser, which
  \<open>deserialize_data\<close> sets high enough never to reach it.
\<close>

datatype pyerror =
  TypeError | AttributeError | JSONDecodeError | ProgrammingError | OutsideModel | OutOfFuel

datatype pyval =
    PNone
  | PBool bool
  | PInt int
  | PStr string
  | PList "pyval list"
  | PDict "(string \<times> pyval) list"

type_synonym pydict = "(string \<times> pyval) list"

text \<open>Distinct keys in every dictionary: the values that exist in Python.\<close>

fun wf_pyval :: "pyval \<Rightarrow> bool"
  and wf_pylist :: "pyval list \<Rightarrow> bool"
  and wf_pyitems :: "pydict \<Rightarrow> bool"
where
  "wf_pyval (PList xs) = wf_pylist xs"
| "wf_pyval (PDict kvs) = (distinct (map fst kvs) \<and> wf_pyitems kvs)"
| "wf_pyval v = True"
| "wf_pylist [] = True"
| "wf_pylist (x # xs) = (wf_pyval x \<and> wf_pylist xs)"
| "wf_pyitems [] = True"
| "wf_pyitems ((k, v) # kvs) = (wf_pyval v \<and> wf_pyitems kvs)"

text \<open>\<open>bool\<close> is a subclass of \<open>int\<close>: \<open>True == 1\<close> and \<open>False < 1\<close>.\<close>

fun num_of :: "pyval \<Rightarrow> int option" where
  "num_of (PBool b) = Some (if b then 1 else 0)"
| "num_of (PInt i) = Some i"
| "num_of v = None"

text \<open>
  \<open>v == w\<close>. Lists are equal when they have the same length and equal elements;
  dictionaries when they have the same number of items and every key of the left one is
  in the right one with an equal value.
\<close>

fun py_eq :: "pyval \<Rightarrow> pyval \<Rightarrow> bool"
  and py_eq_list :: "pyval list \<Rightarrow> pyval list \<Rightarrow> bool"
  and py_eq_items :: "pydict \<Rightarrow> pydict \<Rightarrow> bool"
where
  "py_eq PNone w = (w = PNone)"
| "py_eq (PBool a) w = (num_of w = Some (if a then 1 else 0))"
| "py_eq (PInt a) w = (num_of w = Some a)"
| "py_eq (PStr a) w = (w = PStr a)"
| "py_eq (PList xs) w = (case w of PList ys \<Rightarrow> py_eq_list xs ys | _ \<Rightarrow> False)"
| "py_eq (PDict a) w =
     (case w of PDict b \<Rightarrow> length a = length b \<and> py_eq_items a b | _ \<Rightarrow> False)"
| "py_eq_list [] ys = (ys = [])"
| "py_eq_list (x # xs) ys =
     (case ys of [] \<Rightarrow> False | y # ys' \<Rightarrow> py_eq x y \<and> py_eq_list xs ys')"
| "py_eq_items [] b = True"
| "py_eq_items ((k, v) # a) b =
     (case map_of b k of None \<Rightarrow> False | Some w \<Rightarrow> py_eq v w \<and> py_eq_items a b)"

text \<open>
  \<open>v < w\<close>, which raises \<open>TypeError\<close> between values of different kinds, on \<open>None\<close>
  and on dictionaries. Lists compare at the first position where they differ.
\<close>

fun py_lt :: "pyval \<Rightarrow> pyval \<Rightarrow> pyerror + bool"
  and py_lt_list :: "pyval list \<Rightarrow> pyval list \<Rightarrow> pyerror + bool"
where
  "py_lt (PList xs) w = (case w of PList ys \<Rightarrow> py_lt_list xs ys | _ \<Rightarrow> Inl TypeError)"
| "py_lt (PStr a) w = (case w of PStr b \<Rightarrow> Inr (a < b) | _ \<Rightarrow> Inl TypeError)"
| "py_lt v w =
     (case num_of v of
        None \<Rightarrow> Inl TypeError
      | Some a \<Rightarrow> (case num_of w of None \<Rightarrow> Inl TypeError | Some b \<Rightarrow> Inr (a < b)))"
| "py_lt_list [] ys = Inr (ys \<noteq> [])"
| "py_lt_list (x # xs) ys =
     (case ys of
        [] \<Rightarrow> Inr False
      | y # ys' \<Rightarrow> if py_eq x y then py_lt_list xs ys' else py_lt x y)"

text \<open>
  The kind of a value. Values of two different kinds never compare with \<open><\<close>; numbers
  (with the booleans) and strings are the kinds that \<open><\<close> orders totally.
\<close>

datatype pykind = KNone | KNum | KStr | KList | KDict

fun kind_of :: "pyval \<Rightarrow> pykind" where
  "kind_of PNone = KNone"
| "kind_of (PBool b) = KNum"
| "kind_of (PInt i) = KNum"
| "kind_of (PStr s) = KStr"
| "kind_of (PList xs) = KList"
| "kind_of (PDict kvs) = KDict"

text \<open>The string of a string value and the integer of a number, for stating orders.\<close>

fun str_val :: "pyval \<Rightarrow> string" where
  "str_val (PStr s) = s"
| "str_val v = []"

definition num_val :: "pyval \<Rightarrow> int" where
  "num_val v = (case num_of v of Some i \<Rightarrow> i | None \<Rightarrow> 0)"

section \<open>Strings: \<open>lower\<close>, \<open>in\<close>, \<open>str\<close>\<close>

text \<open>
  \<open>str.lower()\<close> on code points below 256: the ASCII capitals and the capitals of the
  Latin-1 block (192 to 222 without the multiplication sign 215) move up by 32.
\<close>

definition py_lower_char :: "char \<Rightarrow> char" where
  "py_lower_char c =
     (let n = (of_char c :: nat)
      in if (65 \<le> n \<and> n \<le> 90) \<or> (192 \<le> n \<and> n \<le> 222 \<and> n \<noteq> 215)
         then char_of (n + 32) else c)"

definition py_lower :: "string \<Rightarrow> string" where
  "py_lower s = map py_lower_char s"

text \<open>\<open>needle in hay\<close> on strings: \<open>needle\<close> occurs as a contiguous block.\<close>

fun py_contains :: "string \<Rightarrow> string \<Rightarrow> bool" where
  "py_contains needle [] = (needle = [])"
| "py_contains needle (c # cs) = (prefix needle (c # cs) \<or> py_contains needle cs)"

text \<open>The decimal digits of an integer, as \<open>str(int)\<close> and \<open>json.dumps\<close> print it.\<close>

definition digit_char :: "nat \<Rightarrow> char" where
  "digit_char d = char_of (48 + d)"

fun nat_dec :: "nat \<Rightarrow> string" where
  "nat_dec n = (if n < 10 then [digit_char n] else nat_dec (n div 10) @ [digit_char (n mod 10)])"

definition int_dec :: "int \<Rightarrow> string" where
  "int_dec i = (if i < 0 then CHR ''-'' # nat_dec (nat (- i)) else nat_dec (nat i))"

definition hexdigit :: "nat \<Rightarrow> char" where
  "hexdigit d = (if d < 10 then char_of (48 + d) else char_of (87 + d))"

definition hex2 :: "char \<Rightarrow> string" where
  "hex2 c = [hexdigit ((of_char c :: nat) div 16), hexdigit ((of_char c :: nat) mod 16)]"

text \<open>
  \<open>repr\<close> of a string: single quotes unless the string has a single quote and no double
  quote; the quote and the backslash are escaped, tab, newline and return are written
  \<open>\t\<close>, \<open>\n\<close>, \<open>\r\<close>, and every other code point that is not printable is written \<open>\xhh\<close>.
\<close>

definition py_printable :: "char \<Rightarrow> bool" where
  "py_printable c =
     (let n = (of_char c :: nat) in (32 \<le> n \<and> n \<le> 126) \<or> (161 \<le> n \<and> n \<noteq> 173))"

definition repr_char :: "char \<Rightarrow> char \<Rightarrow> string" where
  "repr_char quote c =
     (if c = quote \<or> c = CHR 0x5C then [CHR 0x5C, c]
      else if c = CHR 0x09 then [CHR 0x5C, CHR ''t'']
      else if c = CHR 0x0A then [CHR 0x5C, CHR ''n'']
      else if c = CHR 0x0D then [CHR 0x5C, CHR ''r'']
      else if py_printable c then [c]
      else [CHR 0x5C, CHR ''x''] @ hex2 c)"

definition repr_str :: "string \<Rightarrow> string" where
  "repr_str s =
     (let quote = (if CHR 0x27 \<in> set s \<and> CHR 0x22 \<notin> set s then CHR 0x22 else CHR 0x27)
      in quote # concat (map (repr_char quote) s) @ [quote])"

fun py_repr :: "pyval \<Rightarrow> string"
  and py_repr_list :: "pyval list \<Rightarrow> string"
  and py_repr_items :: "pydict \<Rightarrow> string"
where
  "py_repr PNone = ''None''"
| "py_repr (PBool b) = (if b then ''True'' else ''False'')"
| "py_repr (PInt i) = int_dec i"
| "py_repr (PStr s) = repr_str s"
| "py_repr (PList xs) = ''['' @ py_repr_list xs @ '']''"
| "py_repr (PDict kvs) = ''{'' @ py_repr_items kvs @ ''}''"
| "py_repr_list [] = []"
| "py_repr_list [x] = py_repr x"
| "py_repr_list (x # y # ys) = py_repr x @ '', '' @ py_repr_list (y # ys)"
| "py_repr_items [] = []"
| "py_repr_items [(k, v)] = repr_str k @ '': '' @ py_repr v"
| "py_repr_items ((k, v) # kv # kvs) =
     repr_str k @ '': '' @ py_repr v @ '', '' @ py_repr_items (kv # kvs)"

text \<open>\<open>str(v)\<close>: a string is its own text, every other value prints as its \<open>repr\<close>.\<close>

fun py_str :: "pyval \<Rightarrow> string" where
  "py_str (PStr s) = s"
| "py_str v = py_repr v"

section \<open>Retrieval: \<open>SimpleRetriever\<close>\<close>

text \<open>\<open>item.get(field)\<close> and \<open>item.get(field, default)\<close>.\<close>

definition dict_get :: "pydict \<Rightarrow> string \<Rightarrow> pyval" where
  "dict_get item field = (case map_of item field of None \<Rightarrow> PNone | Some v \<Rightarrow> v)"

definition dict_get_default :: "pydict \<Rightarrow> string \<Rightarrow> pyval \<Rightarrow> pyval" where
  "dict_get_default item field d = (case map_of item field of None \<Rightarrow> d | Some v \<Rightarrow> v)"

definition filter_by_field :: "pydict list \<Rightarrow> string \<Rightarrow> pyval \<Rightarrow> pydict list" where
  "filter_by_field items field v = filter (\<lambda>item. py_eq (dict_get item field) v) items"

text \<open>The loop over \<open>filters.items()\<close>, with \<open>result\<close> as the accumulator.\<close>

fun filter_by_multiple :: "pydict list \<Rightarrow> pydict \<Rightarrow> pydict list" where
  "filter_by_multiple result [] = result"
| "filter_by_multiple result ((field, v) # filters) =
     filter_by_multiple (filter_by_field result field v) filters"

text \<open>\<open>items[:limit]\<close>: a negative limit counts from the end.\<close>

definition limit_results :: "'a list \<Rightarrow> int \<Rightarrow> 'a list" where
  "limit_results items limit =
     (if 0 \<le> limit then take (nat limit) items
      else take (nat (int (length items) + limit)) items)"

text \<open>
  \<open>search_text\<close>. The inner loops return whether the item was appended: they stop at the
  first field that matches (\<open>break\<close>).
\<close>

fun scan_fields :: "pydict \<Rightarrow> string \<Rightarrow> string list \<Rightarrow> bool" where
  "scan_fields item search_term_lower [] = False"
| "scan_fields item search_term_lower (field # fields) =
     (case map_of item field of
        None \<Rightarrow> scan_fields item search_term_lower fields
      | Some v \<Rightarrow>
          if py_contains search_term_lower (py_lower (py_str v)) then True
          else scan_fields item search_term_lower fields)"

fun scan_items :: "string \<Rightarrow> pydict \<Rightarrow> bool" where
  "scan_items search_term_lower [] = False"
| "scan_items search_term_lower ((key, v) # rest) =
     (case v of
        PStr s \<Rightarrow>
          if py_contains search_term_lower (py_lower s) then True
          else scan_items search_term_lower rest
      | _ \<Rightarrow> scan_items search_term_lower rest)"

text \<open>\<open>if fields:\<close> is false for \<open>None\<close> and for the empty list.\<close>

definition item_matches :: "string \<Rightarrow> string list option \<Rightarrow> pydict \<Rightarrow> bool" where
  "item_matches search_term_lower fields item =
     (case fields of
        None \<Rightarrow> scan_items search_term_lower item
      | Some fs \<Rightarrow>
          if fs \<noteq> [] then scan_fields item search_term_lower fs
          else scan_items search_term_lower item)"

fun search_loop ::
  "string \<Rightarrow> string list option \<Rightarrow> pydict list \<Rightarrow> pydict list \<Rightarrow> pydict list" where
  "search_loop search_term_lower fields [] results = results"
| "search_loop search_term_lower fields (item # items) results =
     search_loop search_term_lower fields items
       (if item_matches search_term_lower fields item then results @ [item] else results)"

definition search_text :: "pydict list \<Rightarrow> string \<Rightarrow> string list option \<Rightarrow> pydict list" where
  "search_text items search_term fields = search_loop (py_lower search_term) fields items []"

text \<open>
  \<open>sorted(items, key=..., reverse=...)\<close>. Python's sort is stable and compares keys with
  \<open><\<close> only, a later element against an earlier one; a comparison that raises ends the
  sort with that error. With \<open>reverse\<close> the list is reversed, sorted and reversed again,
  which keeps equal keys in their input order. The model is the stable insertion sort.
\<close>

fun insort_py :: "('a \<Rightarrow> pyval) \<Rightarrow> 'a \<Rightarrow> 'a list \<Rightarrow> pyerror + 'a list" where
  "insort_py key x [] = Inr [x]"
| "insort_py key x (y # ys) =
     (case py_lt (key y) (key x) of
        Inl e \<Rightarrow> Inl e
      | Inr True \<Rightarrow> (case insort_py key x ys of Inl e \<Rightarrow> Inl e | Inr zs \<Rightarrow> Inr (y # zs))
      | Inr False \<Rightarrow> Inr (x # y # ys))"

fun sort_py :: "('a \<Rightarrow> pyval) \<Rightarrow> 'a list \<Rightarrow> pyerror + 'a list" where
  "sort_py key [] = Inr []"
| "sort_py key (x # xs) =
     (case sort_py key xs of Inl e \<Rightarrow> Inl e | Inr ys \<Rightarrow> insort_py key x ys)"

definition sorted_py :: "('a \<Rightarrow> pyval) \<Rightarrow> 'a list \<Rightarrow> bool \<Rightarrow> pyerror + 'a list" where
  "sorted_py key items reverse =
     (if reverse
      then (case sort_py key (rev items) of Inl e \<Rightarrow> Inl e | Inr ys \<Rightarrow> Inr (rev ys))
      else sort_py key items)"

text \<open>The sort key \<open>x.get(field, "")\<close>.\<close>

definition field_key :: "string \<Rightarrow> pydict \<Rightarrow> pyval" where
  "field_key field x = dict_get_default x field (PStr [])"

text \<open>\<open>sort_by_field\<close> catches \<open>TypeError\<close> and nothing else.\<close>

definition sort_by_field :: "pydict list \<Rightarrow> string \<Rightarrow> bool \<Rightarrow> pyerror + pydict list" where
  "sort_by_field items field reverse =
     (case sorted_py (field_key field) items reverse of
        Inl TypeError \<Rightarrow> Inr items
      | Inl e \<Rightarrow> Inl e
      | Inr sorted_items \<Rightarrow> Inr sorted_items)"

definition get_recent :: "pydict list \<Rightarrow> string \<Rightarrow> int \<Rightarrow> pyerror + pydict list" where
  "get_recent items timestamp_field limit =
     (case sort_by_field items timestamp_field True of
        Inl e \<Rightarrow> Inl e
      | Inr sorted_items \<Rightarrow> Inr (limit_results sorted_items limit))"


section \<open>The codec: \<open>serialize_data\<close> and \<open>deserialize_data\<close>\<close>

text \<open>
  \<open>serialize_data\<close> is \<open>json.dumps(data, default=str)\<close> with the default options:
  separators \<open>", "\<close> and \<open>": "\<close>, and \<open>ensure_ascii\<close>, which writes the quote and the
  backslash with a backslash, the control characters 8, 9, 10, 12 and 13 as
  \<open>\b \t \n \f \r\<close>, and every other code point outside 32..126 as \<open>\u00hh\<close>.
  The \<open>default\<close> hook is called on values that JSON does not have; the values of the
  model all have a JSON form.
\<close>

definition json_escape_char :: "char \<Rightarrow> string" where
  "json_escape_char c =
     (if c = CHR 0x22 then [CHR 0x5C, CHR 0x22]
      else if c = CHR 0x5C then [CHR 0x5C, CHR 0x5C]
      else if c = CHR 0x0A then [CHR 0x5C, CHR ''n'']
      else if c = CHR 0x0D then [CHR 0x5C, CHR ''r'']
      else if c = CHR 0x09 then [CHR 0x5C, CHR ''t'']
      else if c = CHR 0x08 then [CHR 0x5C, CHR ''b'']
      else if c = CHR 0x0C then [CHR 0x5C, CHR ''f'']
      else if 32 \<le> (of_char c :: nat) \<and> (of_char c :: nat) \<le> 126 then [c]
      else [CHR 0x5C, CHR ''u'', CHR ''0'', CHR ''0''] @ hex2 c)"

definition json_str :: "string \<Rightarrow> string" where
  "json_str s = CHR 0x22 # concat (map json_escape_char s) @ [CHR 0x22]"

fun json_dumps :: "pyval \<Rightarrow> string"
  and json_list :: "pyval list \<Rightarrow> string"
  and json_items :: "pydict \<Rightarrow> string"
where
  "json_dumps PNone = ''null''"
| "json_dumps (PBool b) = (if b then ''true'' else ''false'')"
| "json_dumps (PInt i) = int_dec i"
| "json_dumps (PStr s) = json_str s"
| "json_dumps (PList xs) = ''['' @ json_list xs @ '']''"
| "json_dumps (PDict kvs) = ''{'' @ json_items kvs @ ''}''"
| "json_list [] = []"
| "json_list [x] = json_dumps x"
| "json_list (x # y # ys) = json_dumps x @ '', '' @ json_list (y # ys)"
| "json_items [] = []"
| "json_items [(k, v)] = json_str k @ '': '' @ json_dumps v"
| "json_items ((k, v) # kv # kvs) =
     json_str k @ '': '' @ json_dumps v @ '', '' @ json_items (kv # kvs)"

definition serialize_data :: "pydict \<Rightarrow> string" where
  "serialize_data data = json_dumps (PDict data)"

text \<open>
  \<open>deserialize_data\<close> is \<open>json.loads\<close>: the scanner of the \<open>json\<close> module. A parser
  takes the text that is left and returns the value with the rest of the text.
\<close>

definition map_res :: "('a \<Rightarrow> 'b) \<Rightarrow> pyerror + 'a \<times> string \<Rightarrow> pyerror + 'b \<times> string" where
  "map_res f res = (case res of Inl e \<Rightarrow> Inl e | Inr (x, rest) \<Rightarrow> Inr (f x, rest))"

definition is_ws :: "char \<Rightarrow> bool" where
  "is_ws c = (c = CHR '' '' \<or> c = CHR 0x09 \<or> c = CHR 0x0A \<or> c = CHR 0x0D)"

definition skip_ws :: "string \<Rightarrow> string" where
  "skip_ws s = dropWhile is_ws s"

definition hex_val :: "char \<Rightarrow> nat option" where
  "hex_val c =
     (let n = (of_char c :: nat)
      in if 48 \<le> n \<and> n \<le> 57 then Some (n - 48)
         else if 97 \<le> n \<and> n \<le> 102 then Some (n - 87)
         else if 65 \<le> n \<and> n \<le> 70 then Some (n - 55)
         else None)"

definition unescape :: "char \<Rightarrow> char option" where
  "unescape e =
     (if e = CHR 0x22 then Some (CHR 0x22)
      else if e = CHR 0x5C then Some (CHR 0x5C)
      else if e = CHR ''/'' then Some (CHR ''/'')
      else if e = CHR ''b'' then Some (CHR 0x08)
      else if e = CHR ''f'' then Some (CHR 0x0C)
      else if e = CHR ''n'' then Some (CHR 0x0A)
      else if e = CHR ''r'' then Some (CHR 0x0D)
      else if e = CHR ''t'' then Some (CHR 0x09)
      else None)"

text \<open>
  \<open>scanstring\<close>, in strict mode, from the character after the opening quote: it ends at
  the closing quote, rejects a raw control character, and decodes the escapes.
\<close>

fun scanstring :: "string \<Rightarrow> pyerror + string \<times> string" where
  "scanstring [] = Inl JSONDecodeError"
| "scanstring (c # cs) =
     (if c = CHR 0x22 then Inr ([], cs)
      else if c = CHR 0x5C then
        (case cs of
           [] \<Rightarrow> Inl JSONDecodeError
         | e # es \<Rightarrow>
             if e = CHR ''u'' then
               (case es of
                  h1 # h2 # h3 # h4 # rest \<Rightarrow>
                    (case hex_val h1 of None \<Rightarrow> Inl JSONDecodeError | Some d1 \<Rightarrow>
                     case hex_val h2 of None \<Rightarrow> Inl JSONDecodeError | Some d2 \<Rightarrow>
                     case hex_val h3 of None \<Rightarrow> Inl JSONDecodeError | Some d3 \<Rightarrow>
                     case hex_val h4 of None \<Rightarrow> Inl JSONDecodeError | Some d4 \<Rightarrow>
                       if ((d1 * 16 + d2) * 16 + d3) * 16 + d4 < 256
                       then map_res ((#) (char_of (((d1 * 16 + d2) * 16 + d3) * 16 + d4)))
                              (scanstring rest)
                       else Inl OutsideModel)
                | _ \<Rightarrow> Inl JSONDecodeError)
             else
               (case unescape e of
                  None \<Rightarrow> Inl JSONDecodeError
                | Some ch \<Rightarrow> map_res ((#) ch) (scanstring es)))
      else if (of_char c :: nat) < 32 then Inl JSONDecodeError
      else map_res ((#) c) (scanstring cs))"

text \<open>
  Numbers: an optional minus, then \<open>0\<close> or a digit from 1 to 9 followed by digits. A
  fraction or an exponent after it makes a float.
\<close>

definition is_digit :: "char \<Rightarrow> bool" where
  "is_digit c = (48 \<le> (of_char c :: nat) \<and> (of_char c :: nat) \<le> 57)"

definition digit_val :: "char \<Rightarrow> nat" where
  "digit_val c = (of_char c :: nat) - 48"

fun scan_digits :: "nat \<Rightarrow> string \<Rightarrow> nat \<times> string" where
  "scan_digits acc [] = (acc, [])"
| "scan_digits acc (c # cs) =
     (if is_digit c then scan_digits (10 * acc + digit_val c) cs else (acc, c # cs))"

definition float_tail :: "string \<Rightarrow> bool" where
  "float_tail s =
     (case s of
        [] \<Rightarrow> False
      | c # r \<Rightarrow>
          if c = CHR ''.'' then (case r of [] \<Rightarrow> False | d # r' \<Rightarrow> is_digit d)
          else if c = CHR ''e'' \<or> c = CHR ''E'' then
            (case r of
               [] \<Rightarrow> False
             | d # r' \<Rightarrow>
                 if is_digit d then True
                 else if d = CHR ''+'' \<or> d = CHR ''-'' then
                   (case r' of [] \<Rightarrow> False | d2 # r'' \<Rightarrow> is_digit d2)
                 else False)
          else False)"

definition match_number :: "string \<Rightarrow> pyerror + pyval \<times> string" where
  "match_number s =
     (let neg = (s \<noteq> [] \<and> hd s = CHR ''-'');
          s1 = (if neg then tl s else s)
      in case s1 of
           [] \<Rightarrow> Inl JSONDecodeError
         | d # r \<Rightarrow>
             if \<not> is_digit d then Inl JSONDecodeError
             else
               (case (if d = CHR ''0'' then (0, r) else scan_digits (digit_val d) r) of
                  (n, rest) \<Rightarrow>
                    if float_tail rest then Inl OutsideModel
                    else Inr (PInt (if neg then - int n else int n), rest)))"

text \<open>\<open>dict(pairs)\<close>: a key that comes again replaces the value and keeps its place.\<close>

definition dict_set :: "pydict \<Rightarrow> string \<Rightarrow> pyval \<Rightarrow> pydict" where
  "dict_set d k v =
     (if k \<in> fst ` set d then map (\<lambda>(k', v'). if k' = k then (k', v) else (k', v')) d
      else d @ [(k, v)])"

definition dict_of_pairs :: "pydict \<Rightarrow> pydict" where
  "dict_of_pairs pairs = fold (\<lambda>(k, v) d. dict_set d k v) pairs []"

text \<open>
  \<open>scan_once\<close> with \<open>JSONArray\<close> and \<open>JSONObject\<close>. \<open>parse_elems\<close> starts at an
  element of an array, \<open>parse_members\<close> at the quote of a key of an object. The first
  argument is the recursion budget.
\<close>

fun parse_value :: "nat \<Rightarrow> string \<Rightarrow> pyerror + pyval \<times> string"
  and parse_elems :: "nat \<Rightarrow> string \<Rightarrow> pyerror + pyval list \<times> string"
  and parse_members :: "nat \<Rightarrow> string \<Rightarrow> pyerror + pydict \<times> string"
where
  "parse_value 0 s = Inl OutOfFuel"
| "parse_value (Suc n) s =
     (case s of
        [] \<Rightarrow> Inl JSONDecodeError
      | c # r \<Rightarrow>
          if c = CHR 0x22 then map_res PStr (scanstring r)
          else if c = CHR ''{'' then
            (case skip_ws r of
               [] \<Rightarrow> Inl JSONDecodeError
             | c' # r' \<Rightarrow>
                 if c' = CHR ''}'' then Inr (PDict [], r')
                 else if c' = CHR 0x22
                   then map_res (\<lambda>pairs. PDict (dict_of_pairs pairs)) (parse_members n (c' # r'))
                 else Inl JSONDecodeError)
          else if c = CHR ''['' then
            (case skip_ws r of
               [] \<Rightarrow> Inl JSONDecodeError
             | c' # r' \<Rightarrow>
                 if c' = CHR '']'' then Inr (PList [], r')
                 else map_res PList (parse_elems n (c' # r')))
          else if prefix ''null'' s then Inr (PNone, drop 4 s)
          else if prefix ''true'' s then Inr (PBool True, drop 4 s)
          else if prefix ''false'' s then Inr (PBool False, drop 5 s)
          else if prefix ''NaN'' s \<or> prefix ''Infinity'' s \<or> prefix ''-Infinity'' s
            then Inl OutsideModel
          else match_number s)"
| "parse_elems 0 s = Inl OutOfFuel"
| "parse_elems (Suc n) s =
     (case parse_value n s of
        Inl e \<Rightarrow> Inl e
      | Inr (v, rest) \<Rightarrow>
          (case skip_ws rest of
             [] \<Rightarrow> Inl JSONDecodeError
           | c # r \<Rightarrow>
               if c = CHR '']'' then Inr ([v], r)
               else if c = CHR '','' then map_res ((#) v) (parse_elems n (skip_ws r))
               else Inl JSONDecodeError))"
| "parse_members 0 s = Inl OutOfFuel"
| "parse_members (Suc n) s =
     (case s of
        [] \<Rightarrow> Inl JSONDecodeError
      | c # r \<Rightarrow>
          if c \<noteq> CHR 0x22 then Inl JSONDecodeError
          else
            (case scanstring r of
               Inl e \<Rightarrow> Inl e
             | Inr (k, r1) \<Rightarrow>
                 (case skip_ws r1 of
                    [] \<Rightarrow> Inl JSONDecodeError
                  | c1 # r2 \<Rightarrow>
                      if c1 \<noteq> CHR '':'' then Inl JSONDecodeError
                      else
                        (case parse_value n (skip_ws r2) of
                           Inl e \<Rightarrow> Inl e
                         | Inr (v, r3) \<Rightarrow>
                             (case skip_ws r3 of
                                [] \<Rightarrow> Inl JSONDecodeError
                              | c3 # r4 \<Rightarrow>
                                  if c3 = CHR ''}'' then Inr ([(k, v)], r4)
                                  else if c3 = CHR '','' then
                                    map_res ((#) (k, v)) (parse_members n (skip_ws r4))
                                  else Inl JSONDecodeError)))))"

text \<open>
  \<open>json.loads\<close>: white space, one value, white space, and nothing else. A value and
  the elements inside it spend at most two units of budget for each character read, so
  twice the length of the text is budget enough.
\<close>

definition deserialize_data :: "string \<Rightarrow> pyerror + pyval" where
  "deserialize_data data_str =
     (case parse_value (Suc (2 * length data_str)) (skip_ws data_str) of
        Inl e \<Rightarrow> Inl e
      | Inr (v, rest) \<Rightarrow> if skip_ws rest = [] then Inr v else Inl JSONDecodeError)"

section \<open>The SQLite backend: \<open>SQLiteStorage\<close>\<close>

text \<open>
  The database is the state: the table \<open>memories\<close>, one entry for each tracked
  \<open>memory_id\<close> with its creation time, and the table \<open>memory_data\<close>, one row for each
  pair of \<open>memory_id\<close> and \<open>key\<close>, kept in the order of insertion. The columns \<open>id\<close>
  and \<open>memory_type\<close> are never read or set by the code and are left out; the order of
  the list stands for \<open>id\<close>. \<open>CURRENT_TIMESTAMP\<close> is the argument \<open>now\<close> of the
  operations that write it. \<open>conn_closed\<close> is the state of the connection.
\<close>

record stored_row =
  row_memory_id :: string
  row_key :: string
  row_data :: string
  row_created_at :: nat
  row_updated_at :: nat

record backend =
  conn_closed :: bool
  memories :: "(string \<times> nat) list"
  memory_data :: "stored_row list"

text \<open>The row of a pair of \<open>memory_id\<close> and \<open>key\<close>, if there is one.\<close>

definition is_row :: "string \<Rightarrow> string \<Rightarrow> stored_row \<Rightarrow> bool" where
  "is_row mid k r = (row_memory_id r = mid \<and> row_key r = k)"

definition find_row :: "backend \<Rightarrow> string \<Rightarrow> string \<Rightarrow> stored_row option" where
  "find_row s mid k = find (is_row mid k) (memory_data s)"

text \<open>\<open>UNIQUE(memory_id, key)\<close>.\<close>

definition unique_keys :: "backend \<Rightarrow> bool" where
  "unique_keys s = distinct (map (\<lambda>r. (row_memory_id r, row_key r)) (memory_data s))"

text \<open>
  Every operation starts with \<open>self.conn.cursor()\<close>, which raises
  \<open>sqlite3.ProgrammingError\<close> (cannot operate on a closed database) on a closed
  connection, before anything else is done.

  \<open>store\<close>: \<open>INSERT OR IGNORE\<close> into \<open>memories\<close>; then the insert into
  \<open>memory_data\<close>, which on a conflict of \<open>(memory_id, key)\<close> sets \<open>data\<close> and
  \<open>updated_at\<close> of the row that is there.
\<close>

definition store :: "nat \<Rightarrow> backend \<Rightarrow> string \<Rightarrow> string \<Rightarrow> pydict \<Rightarrow> pyerror + backend" where
  "store now s mid k data =
     (if conn_closed s then Inl ProgrammingError
      else
        let mems = (if mid \<in> fst ` set (memories s) then memories s
                    else memories s @ [(mid, now)]);
            serialized = serialize_data data
        in if \<exists>r\<in>set (memory_data s). is_row mid k r
           then Inr (s\<lparr>memories := mems,
                       memory_data :=
                         map (\<lambda>r. if is_row mid k r
                                  then r\<lparr>row_data := serialized, row_updated_at := now\<rparr>
                                  else r) (memory_data s)\<rparr>)
           else Inr (s\<lparr>memories := mems,
                       memory_data := memory_data s @
                         [\<lparr>row_memory_id = mid, row_key = k, row_data = serialized,
                           row_created_at = now, row_updated_at = now\<rparr>]\<rparr>))"

text \<open>\<open>retrieve\<close>: \<open>fetchone\<close> of the rows of the pair, decoded.\<close>

definition retrieve :: "backend \<Rightarrow> string \<Rightarrow> string \<Rightarrow> pyerror + pyval option" where
  "retrieve s mid k =
     (if conn_closed s then Inl ProgrammingError
      else case find_row s mid k of
             None \<Rightarrow> Inr None
           | Some r \<Rightarrow>
               (case deserialize_data (row_data r) of
                  Inl e \<Rightarrow> Inl e
                | Inr v \<Rightarrow> Inr (Some v)))"

text \<open>
  \<open>query\<close>: the list comprehension decodes the rows of the \<open>memory_id\<close> one after the
  other, and an exception of \<open>deserialize_data\<close> leaves it. Then one list comprehension
  for each filter; \<open>item.get\<close> exists on dictionaries only.
\<close>

fun deserialize_rows :: "stored_row list \<Rightarrow> pyerror + pyval list" where
  "deserialize_rows [] = Inr []"
| "deserialize_rows (row # rows) =
     (case deserialize_data (row_data row) of
        Inl e \<Rightarrow> Inl e
      | Inr v \<Rightarrow>
          (case deserialize_rows rows of
             Inl e \<Rightarrow> Inl e
           | Inr vs \<Rightarrow> Inr (v # vs)))"

fun filter_items :: "pyval list \<Rightarrow> string \<Rightarrow> pyval \<Rightarrow> pyerror + pyval list" where
  "filter_items [] field v = Inr []"
| "filter_items (item # result) field v =
     (case item of
        PDict d \<Rightarrow>
          (case filter_items result field v of
             Inl e \<Rightarrow> Inl e
           | Inr kept \<Rightarrow> Inr (if py_eq (dict_get d field) v then item # kept else kept))
      | _ \<Rightarrow> Inl AttributeError)"

fun apply_filters :: "pyval list \<Rightarrow> pydict \<Rightarrow> pyerror + pyval list" where
  "apply_filters result [] = Inr result"
| "apply_filters result ((field, v) # filters) =
     (case filter_items result field v of
        Inl e \<Rightarrow> Inl e
      | Inr kept \<Rightarrow> apply_filters kept filters)"

definition query :: "backend \<Rightarrow> string \<Rightarrow> pydict \<Rightarrow> pyerror + pyval list" where
  "query s mid filters =
     (if conn_closed s then Inl ProgrammingError
      else case deserialize_rows (filter (\<lambda>r. row_memory_id r = mid) (memory_data s)) of
             Inl e \<Rightarrow> Inl e
           | Inr all_data \<Rightarrow> apply_filters all_data filters)"

text \<open>\<open>delete\<close> returns \<open>cursor.rowcount > 0\<close> with the new state.\<close>

definition delete :: "backend \<Rightarrow> string \<Rightarrow> string \<Rightarrow> pyerror + bool \<times> backend" where
  "delete s mid k =
     (if conn_closed s then Inl ProgrammingError
      else Inr (0 < length (filter (is_row mid k) (memory_data s)),
                s\<lparr>memory_data := filter (\<lambda>r. \<not> is_row mid k r) (memory_data s)\<rparr>))"

text \<open>\<open>close\<close>: closing a closed connection does nothing.\<close>

definition close :: "backend \<Rightarrow> pyerror + backend" where
  "close s = Inr (s\<lparr>conn_closed := True\<rparr>)"

text \<open>
  What follows a value inside a JSON text written by \<open>json_dumps\<close>: the end of the
  text, a comma, or a closing bracket or brace.
\<close>

definition value_end :: "string \<Rightarrow> bool" where
  "value_end rest =
     (rest = [] \<or> hd rest = CHR '','' \<or> hd rest = CHR '']'' \<or> hd rest = CHR ''}'')"

section \<open>Properties of the retrieval functions\<close>

subsection \<open>Sorting\<close>

lemma py_lt_error:
  "py_lt a b = Inl e \<Longrightarrow> e = TypeError"
  "py_lt_list xs ys = Inl e \<Longrightarrow> e = TypeError"
  by (induction a b and xs ys rule: py_lt_py_lt_list.induct)
     (simp_all split: pyval.splits option.splits list.splits if_splits)

lemma py_lt_kind: "kind_of a \<noteq> kind_of b \<Longrightarrow> py_lt a b = Inl TypeError"
  by (cases a; cases b) auto

lemma insort_py_error: "insort_py key x ys = Inl e \<Longrightarrow> e = TypeError"
  by (induction ys) (auto split: sum.splits bool.splits if_splits dest: py_lt_error)

lemma sort_py_error: "sort_py key xs = Inl e \<Longrightarrow> e = TypeError"
  by (induction xs arbitrary: e) (auto split: sum.splits dest: insort_py_error)

lemma py_lt_Inr_kind: "py_lt a b = Inr r \<Longrightarrow> kind_of a = kind_of b"
  using py_lt_kind[of a b] by (cases "kind_of a = kind_of b") auto




lemma insort_py_linorder:
  fixes f :: "'a \<Rightarrow> 'b::linorder"
  assumes "\<forall>y\<in>set ys. py_lt (key y) (key x) = Inr (f y < f x)"
  shows "insort_py key x ys = Inr (insort_key f x ys)"
  using assms by (induction ys) (auto split: sum.splits bool.splits)

lemma sort_py_linorder:
  fixes f :: "'a \<Rightarrow> 'b::linorder"
  assumes "\<forall>x\<in>set xs. \<forall>y\<in>set xs. py_lt (key y) (key x) = Inr (f y < f x)"
  shows "sort_py key xs = Inr (sort_key f xs)"
  using assms
proof (induction xs)
  case Nil then show ?case by simp
next
  case (Cons x xs)
  then have "sort_py key xs = Inr (sort_key f xs)" by auto
  moreover have "insort_py key x (sort_key f xs) = Inr (insort_key f x (sort_key f xs))"
    using Cons.prems by (intro insort_py_linorder) auto
  ultimately show ?case by simp
qed

lemma py_lt_str: "kind_of a = KStr \<Longrightarrow> kind_of b = KStr \<Longrightarrow> py_lt a b = Inr (str_val a < str_val b)"
  by (cases a; cases b) simp_all

lemma py_lt_num: "kind_of a = KNum \<Longrightarrow> kind_of b = KNum \<Longrightarrow> py_lt a b = Inr (num_val a < num_val b)"
  by (cases a; cases b) (simp_all add: num_val_def)

lemma py_eq_str: "kind_of a = KStr \<Longrightarrow> py_eq a k \<longleftrightarrow> (if kind_of k = KStr then Some (str_val k) else None) = Some (str_val a)"
  by (cases a; cases k) auto

lemma py_eq_num: "kind_of a = KNum \<Longrightarrow> py_eq a k \<longleftrightarrow> num_of k = Some (num_val a)"
  by (cases a; cases k) (auto simp: num_val_def)

lemma sorted_py_linorder:
  fixes f :: "'a \<Rightarrow> 'b::linorder"
  assumes lt: "\<forall>x\<in>set xs. \<forall>y\<in>set xs. py_lt (key y) (key x) = Inr (f y < f x)"
  shows "sorted_py key xs reverse = Inr (if reverse then rev (sort_key f (rev xs)) else sort_key f xs)"
proof -
  have "sort_py key xs = Inr (sort_key f xs)" using lt by (rule sort_py_linorder)
  moreover have "sort_py key (rev xs) = Inr (sort_key f (rev xs))"
    by (rule sort_py_linorder) (use lt in simp)
  ultimately show ?thesis by (simp add: sorted_py_def)
qed

lemma sort_key_order:
  fixes f :: "'a \<Rightarrow> 'b::linorder"
  assumes lt: "\<forall>x\<in>set xs. \<forall>y\<in>set xs. py_lt (key y) (key x) = Inr (f y < f x)"
  shows "sorted_wrt (\<lambda>a b. py_lt (key b) (key a) = Inr False) (sort_key f xs)"
proof -
  have "sorted (map f (sort_key f xs))" by (rule sorted_sort_key)
  then have "sorted_wrt (\<lambda>a b. f a \<le> f b) (sort_key f xs)" by (simp add: sorted_map)
  moreover have "py_lt (key b) (key a) = Inr False"
    if "a \<in> set (sort_key f xs)" "b \<in> set (sort_key f xs)" "f a \<le> f b" for a b
  proof -
    from that have "a \<in> set xs" "b \<in> set xs" by simp_all
    with lt have "py_lt (key b) (key a) = Inr (f b < f a)" by blast
    with that(3) show ?thesis by simp
  qed
  ultimately show ?thesis by (rule sorted_wrt_mono_rel[rotated])
qed

lemma sort_key_keeps_equal:
  fixes f :: "'a \<Rightarrow> 'b::linorder"
  assumes eq: "\<forall>x\<in>set xs. py_eq (key x) k \<longleftrightarrow> c = Some (f x)"
  shows "filter (\<lambda>x. py_eq (key x) k) (sort_key f xs) = filter (\<lambda>x. py_eq (key x) k) xs"
proof (cases c)
  case None
  have "filter (\<lambda>x. py_eq (key x) k) (sort_key f xs) = []"
    using eq None by (simp add: filter_empty_conv)
  moreover have "filter (\<lambda>x. py_eq (key x) k) xs = []"
    using eq None by (simp add: filter_empty_conv)
  ultimately show ?thesis by simp
next
  case (Some d)
  have "filter (\<lambda>x. py_eq (key x) k) (sort_key f xs) = filter (\<lambda>x. f x = d) (sort_key f xs)"
    by (rule filter_cong[OF refl]) (use eq Some in auto)
  also have "\<dots> = filter (\<lambda>x. f x = d) xs" by (rule sort_key_stable)
  also have "\<dots> = filter (\<lambda>x. py_eq (key x) k) xs"
    by (rule filter_cong[OF refl]) (use eq Some in auto)
  finally show ?thesis .
qed

lemma sorted_py_props:
  fixes f :: "'a \<Rightarrow> 'b::linorder"
  assumes lt: "\<forall>x\<in>set xs. \<forall>y\<in>set xs. py_lt (key y) (key x) = Inr (f y < f x)"
    and eq: "\<And>k. \<forall>x\<in>set xs. py_eq (key x) k \<longleftrightarrow> g k = Some (f x)"
  shows "\<exists>out. sorted_py key xs reverse = Inr out \<and> mset out = mset xs \<and>
           sorted_wrt (\<lambda>a b. (if reverse then py_lt (key a) (key b) else py_lt (key b) (key a)) = Inr False) out \<and>
           (\<forall>k. filter (\<lambda>x. py_eq (key x) k) out = filter (\<lambda>x. py_eq (key x) k) xs)"
proof (cases reverse)
  case False
  have "sorted_py key xs reverse = Inr (sort_key f xs)"
    using sorted_py_linorder[OF lt, of reverse] False by simp
  moreover have "mset (sort_key f xs) = mset xs" by simp
  moreover have "sorted_wrt (\<lambda>a b. py_lt (key b) (key a) = Inr False) (sort_key f xs)"
    using lt by (rule sort_key_order)
  moreover have "\<forall>k. filter (\<lambda>x. py_eq (key x) k) (sort_key f xs) = filter (\<lambda>x. py_eq (key x) k) xs"
    using sort_key_keeps_equal[OF eq] by blast
  ultimately show ?thesis using False by simp
next
  case True
  have lt': "\<forall>x\<in>set (rev xs). \<forall>y\<in>set (rev xs). py_lt (key y) (key x) = Inr (f y < f x)"
    using lt by simp
  have eq': "\<forall>x\<in>set (rev xs). py_eq (key x) k \<longleftrightarrow> g k = Some (f x)" for k
    using eq[of k] by simp
  have "sorted_py key xs reverse = Inr (rev (sort_key f (rev xs)))"
    using sorted_py_linorder[OF lt, of reverse] True by simp
  moreover have "mset (rev (sort_key f (rev xs))) = mset xs" by simp
  moreover have "sorted_wrt (\<lambda>a b. py_lt (key a) (key b) = Inr False) (rev (sort_key f (rev xs)))"
    using sort_key_order[OF lt'] by (simp add: sorted_wrt_rev)
  moreover have "filter (\<lambda>x. py_eq (key x) k) (rev (sort_key f (rev xs))) = filter (\<lambda>x. py_eq (key x) k) xs" for k
  proof -
    have "filter (\<lambda>x. py_eq (key x) k) (rev (sort_key f (rev xs)))
          = rev (filter (\<lambda>x. py_eq (key x) k) (sort_key f (rev xs)))" by (simp add: rev_filter)
    also have "\<dots> = rev (filter (\<lambda>x. py_eq (key x) k) (rev xs))"
      using sort_key_keeps_equal[OF eq'] by simp
    also have "\<dots> = filter (\<lambda>x. py_eq (key x) k) xs" by (simp add: rev_filter)
    finally show ?thesis .
  qed
  ultimately show ?thesis using True by simp
qed

lemma sorted_py_error: "sorted_py key xs reverse = Inl e \<Longrightarrow> e = TypeError"
  unfolding sorted_py_def
  by (cases reverse; cases "sort_py key (rev xs)") (auto dest: sort_py_error)


lemma sorted_py_uniform:
  assumes "(\<forall>x\<in>set xs. kind_of (key x) = KStr) \<or> (\<forall>x\<in>set xs. kind_of (key x) = KNum)"
  shows "\<exists>out. sorted_py key xs reverse = Inr out \<and> mset out = mset xs \<and>
           sorted_wrt (\<lambda>a b. (if reverse then py_lt (key a) (key b) else py_lt (key b) (key a)) = Inr False) out \<and>
           (\<forall>k. filter (\<lambda>x. py_eq (key x) k) out = filter (\<lambda>x. py_eq (key x) k) xs)"
  using assms
proof
  assume s: "\<forall>x\<in>set xs. kind_of (key x) = KStr"
  show ?thesis
  proof (rule sorted_py_props[where f = "\<lambda>x. str_val (key x)"
        and g = "\<lambda>k. if kind_of k = KStr then Some (str_val k) else None"])
    show "\<forall>x\<in>set xs. \<forall>y\<in>set xs. py_lt (key y) (key x) = Inr (str_val (key y) < str_val (key x))"
      using s by (simp add: py_lt_str)
    show "\<forall>x\<in>set xs. py_eq (key x) k = ((if kind_of k = KStr then Some (str_val k) else None) = Some (str_val (key x)))" for k
      using s by (simp add: py_eq_str)
  qed
next
  assume n: "\<forall>x\<in>set xs. kind_of (key x) = KNum"
  show ?thesis
  proof (rule sorted_py_props[where f = "\<lambda>x. num_val (key x)" and g = num_of])
    show "\<forall>x\<in>set xs. \<forall>y\<in>set xs. py_lt (key y) (key x) = Inr (num_val (key y) < num_val (key x))"
      using n by (simp add: py_lt_num)
    show "\<forall>x\<in>set xs. py_eq (key x) k = (num_of k = Some (num_val (key x)))" for k
      using n by (simp add: py_eq_num)
  qed
qed

lemma sort_by_field_eq:
  "sort_by_field items field reverse =
     Inr (case sorted_py (field_key field) items reverse of Inl e \<Rightarrow> items | Inr out \<Rightarrow> out)"
proof (cases "sorted_py (field_key field) items reverse")
  case (Inl e)
  then have "e = TypeError" by (rule sorted_py_error)
  with Inl show ?thesis by (simp add: sort_by_field_def)
next
  case (Inr out) then show ?thesis by (simp add: sort_by_field_def)
qed






subsection \<open>Filtering\<close>

text \<open>
  C7, as the code has it. \<open>filter_by_field\<close> keeps exactly the records whose value at
  the field equals the filter value, where a record without the field is read as \<open>None\<close>:
  such a record is excluded for every filter value other than \<open>None\<close>, and kept when the
  filter value is \<open>None\<close>. No input raises.
\<close>

theorem filter_by_field_exact:
  "filter_by_field items field v =
     filter (\<lambda>item. case map_of item field of Some x \<Rightarrow> py_eq x v | None \<Rightarrow> v = PNone) items"
  unfolding filter_by_field_def dict_get_def
  by (rule filter_cong[OF refl]) (auto split: option.splits)

theorem filter_by_field_exact_witness:
  "filter_by_field
     [[(''role'', PStr ''user'')], [(''role'', PStr ''assistant'')], [(''text'', PStr ''hi'')]]
     ''role'' (PStr ''user'') = [[(''role'', PStr ''user'')]]"
  using filter_by_field_exact
    [of "[[(''role'', PStr ''user'')], [(''role'', PStr ''assistant'')], [(''text'', PStr ''hi'')]]"
        "''role''" "PStr ''user''"]
  by simp

text \<open>
  The claim C7 as stated fails for the filter value \<open>None\<close>: the record below has no
  field \<open>b\<close> and is kept, because \<open>item.get('b')\<close> is \<open>None\<close>.
\<close>

theorem filter_by_field_missing_counterexample:
  "filter_by_field [[(''a'', PInt 1)]] ''b'' PNone = [[(''a'', PInt 1)]]"
  by (simp add: filter_by_field_def dict_get_def)

subsection \<open>Text search\<close>

lemma py_contains_iff: "py_contains n h \<longleftrightarrow> (\<exists>ps ss. h = ps @ n @ ss)"
proof (induction h)
  case Nil show ?case by simp
next
  case (Cons c cs)
  show ?case
  proof
    assume "py_contains n (c # cs)"
    then consider "prefix n (c # cs)" | "py_contains n cs" by auto
    then show "\<exists>ps ss. c # cs = ps @ n @ ss"
    proof cases
      case 1 then obtain ss where "c # cs = n @ ss" by (auto simp: prefix_def)
      then have "c # cs = [] @ n @ ss" by simp
      then show ?thesis by blast
    next
      case 2 with Cons.IH obtain ps ss where "cs = ps @ n @ ss" by blast
      then have "c # cs = (c # ps) @ n @ ss" by simp
      then show ?thesis by blast
    qed
  next
    assume "\<exists>ps ss. c # cs = ps @ n @ ss"
    then obtain ps ss where e: "c # cs = ps @ n @ ss" by blast
    show "py_contains n (c # cs)"
    proof (cases ps)
      case Nil with e have "prefix n (c # cs)" by (simp add: prefix_def)
      then show ?thesis by simp
    next
      case (Cons p ps') with e have "cs = ps' @ n @ ss" by simp
      with Cons.IH have "py_contains n cs" by blast
      then show ?thesis by simp
    qed
  qed
qed

lemma search_loop_filter:
  "search_loop t fs items acc = acc @ filter (item_matches t fs) items"
  by (induction items arbitrary: acc) simp_all

lemma scan_fields_iff:
  "scan_fields item t fs \<longleftrightarrow>
     (\<exists>f\<in>set fs. \<exists>v. map_of item f = Some v \<and> py_contains t (py_lower (py_str v)))"
  by (induction fs) (auto split: option.splits)

lemma scan_items_iff:
  "scan_items t item \<longleftrightarrow> (\<exists>(k, v)\<in>set item. \<exists>s. v = PStr s \<and> py_contains t (py_lower s))"
  by (induction item rule: scan_items.induct) (auto split: pyval.splits)

text \<open>
  C2, as the code has it. \<open>search_text\<close> keeps, in input order and once for each input
  position, the records that match. With a non-empty field list a record matches when the
  lower-cased \<open>str\<close> of some listed field that is present contains the lower-cased
  term. With no field list, or with an empty one, a record matches when some field whose
  value is a string contains the term, both lower-cased.
\<close>

theorem search_text_matches:
  "search_text items search_term field_list =
     filter (\<lambda>item.
        if field_list = None \<or> field_list = Some []
        then \<exists>(k, v)\<in>set item. \<exists>s. v = PStr s \<and>
               (\<exists>ps ss. py_lower s = ps @ py_lower search_term @ ss)
        else \<exists>f\<in>set (the field_list). \<exists>v. map_of item f = Some v \<and>
               (\<exists>ps ss. py_lower (py_str v) = ps @ py_lower search_term @ ss)) items"
proof -
  have "item_matches (py_lower search_term) field_list item =
        (if field_list = None \<or> field_list = Some []
        then \<exists>(k, v)\<in>set item. \<exists>s. v = PStr s \<and>
               (\<exists>ps ss. py_lower s = ps @ py_lower search_term @ ss)
        else \<exists>f\<in>set (the field_list). \<exists>v. map_of item f = Some v \<and>
               (\<exists>ps ss. py_lower (py_str v) = ps @ py_lower search_term @ ss))" for item
    by (cases field_list) (simp_all add: item_matches_def scan_fields_iff scan_items_iff py_contains_iff)
  then have "item_matches (py_lower search_term) field_list = (\<lambda>item.
        if field_list = None \<or> field_list = Some []
        then \<exists>(k, v)\<in>set item. \<exists>s. v = PStr s \<and>
               (\<exists>ps ss. py_lower s = ps @ py_lower search_term @ ss)
        else \<exists>f\<in>set (the field_list). \<exists>v. map_of item f = Some v \<and>
               (\<exists>ps ss. py_lower (py_str v) = ps @ py_lower search_term @ ss))"
    by (rule ext)
  then show ?thesis unfolding search_text_def search_loop_filter by simp
qed

theorem search_text_matches_witness:
  "search_text [[(''text'', PStr ''Hello world'')], [(''text'', PStr ''goodbye'')]] ''hello'' None =
     filter (\<lambda>item. \<exists>(k, v)\<in>set item. \<exists>s. v = PStr s \<and>
               (\<exists>ps ss. py_lower s = ps @ py_lower ''hello'' @ ss))
       [[(''text'', PStr ''Hello world'')], [(''text'', PStr ''goodbye'')]] \<and>
   search_text [[(''text'', PStr ''Hello world'')], [(''text'', PStr ''goodbye'')]] ''hello'' None =
     [[(''text'', PStr ''Hello world'')]]"
proof
  show "search_text [[(''text'', PStr ''Hello world'')], [(''text'', PStr ''goodbye'')]] ''hello'' None =
     filter (\<lambda>item. \<exists>(k, v)\<in>set item. \<exists>s. v = PStr s \<and>
               (\<exists>ps ss. py_lower s = ps @ py_lower ''hello'' @ ss))
       [[(''text'', PStr ''Hello world'')], [(''text'', PStr ''goodbye'')]]"
    using search_text_matches
      [of "[[(''text'', PStr ''Hello world'')], [(''text'', PStr ''goodbye'')]]" "''hello''" None]
    by simp
  show "search_text [[(''text'', PStr ''Hello world'')], [(''text'', PStr ''goodbye'')]] ''hello'' None =
     [[(''text'', PStr ''Hello world'')]]"
    by code_simp
qed

text \<open>
  The claim C2 as stated fails for an empty field list: no field is listed, and the record
  is kept all the same, because \<open>if fields:\<close> sends the empty list to the scan of all
  string fields.
\<close>

theorem search_text_empty_fields_counterexample:
  "search_text [[(''title'', PStr ''Hello'')]] ''hello'' (Some []) = [[(''title'', PStr ''Hello'')]]"
  by code_simp

subsection \<open>Subsequences\<close>

lemma filter_by_field_subseq: "subseq (filter_by_field items field v) items"
  by (simp add: filter_by_field_def)

lemma filter_by_multiple_subseq: "subseq (filter_by_multiple items filters) items"
proof (induction filters arbitrary: items)
  case Nil show ?case by simp
next
  case (Cons fv filters)
  obtain f v where fv: "fv = (f, v)" by (cases fv)
  have "subseq (filter_by_multiple (filter_by_field items f v) filters) (filter_by_field items f v)"
    by (rule Cons.IH)
  moreover have "subseq (filter_by_field items f v) items" by (rule filter_by_field_subseq)
  ultimately have "subseq (filter_by_multiple (filter_by_field items f v) filters) items"
    by (rule subseq_order.trans)
  then show ?case by (simp add: fv)
qed

lemma search_text_subseq: "subseq (search_text items t field_list) items"
  by (simp add: search_text_def search_loop_filter)

lemma limit_results_subseq: "subseq (limit_results items n) items"
  by (simp add: limit_results_def prefix_imp_subseq take_is_prefix)

text \<open>
  C10. \<open>filter_by_field\<close>, \<open>filter_by_multiple\<close>, \<open>search_text\<close> and
  \<open>limit_results\<close> each return a subsequence of their input (records of the input, in
  the input's order, each input position at most once), and so does the pipeline of filter,
  search and limit.
\<close>

theorem retrieval_subseq:
  "subseq (filter_by_field items field v) items \<and>
   subseq (filter_by_multiple items filters) items \<and>
   subseq (search_text items search_term field_list) items \<and>
   subseq (limit_results items limit) items \<and>
   subseq (limit_results (search_text (filter_by_multiple items filters) search_term field_list) limit) items"
proof -
  have "subseq (limit_results (search_text (filter_by_multiple items filters) search_term field_list) limit)
          (search_text (filter_by_multiple items filters) search_term field_list)"
    by (rule limit_results_subseq)
  also have "subseq \<dots> (filter_by_multiple items filters)" by (rule search_text_subseq)
  also have "subseq \<dots> items" by (rule filter_by_multiple_subseq)
  finally have "subseq (limit_results (search_text (filter_by_multiple items filters) search_term field_list) limit) items" .
  then show ?thesis
    by (simp add: filter_by_field_subseq filter_by_multiple_subseq search_text_subseq limit_results_subseq)
qed

theorem retrieval_subseq_witness:
  "subseq (limit_results (search_text (filter_by_multiple
      [[(''role'', PStr ''user''), (''text'', PStr ''Hello'')], [(''role'', PStr ''bot'')]]
      [(''role'', PStr ''user'')]) ''hello'' None) 1)
      [[(''role'', PStr ''user''), (''text'', PStr ''Hello'')], [(''role'', PStr ''bot'')]]"
  using retrieval_subseq
    [of "[[(''role'', PStr ''user''), (''text'', PStr ''Hello'')], [(''role'', PStr ''bot'')]]"
        "''role''" "PStr ''user''" "[(''role'', PStr ''user'')]" "''hello''" None 1]
  by blast

subsection \<open>Most recent records\<close>

lemma py_lt_scalar_asym:
  assumes "kind_of a = KStr \<or> kind_of a = KNum" "py_lt a b = Inr True"
  shows "py_lt b a = Inr False"
proof -
  have k: "kind_of a = kind_of b" using assms(2) by (rule py_lt_Inr_kind)
  from assms(1) show ?thesis
  proof
    assume s: "kind_of a = KStr"
    with k have "kind_of b = KStr" by simp
    with s assms(2) show ?thesis by (simp add: py_lt_str)
  next
    assume n: "kind_of a = KNum"
    with k have "kind_of b = KNum" by simp
    with n assms(2) show ?thesis by (simp add: py_lt_num)
  qed
qed

lemma py_lt_scalar_trans:
  assumes "kind_of a = KStr \<or> kind_of a = KNum" "py_lt a b = Inr True" "py_lt b c = Inr True"
  shows "py_lt a c = Inr True"
proof -
  have k: "kind_of a = kind_of b" "kind_of b = kind_of c"
    using assms(2,3) by (auto dest: py_lt_Inr_kind)
  from assms(1) show ?thesis
  proof
    assume s: "kind_of a = KStr"
    with k have "kind_of b = KStr" "kind_of c = KStr" by simp_all
    with s assms(2,3) show ?thesis by (simp add: py_lt_str)
  next
    assume n: "kind_of a = KNum"
    with k have "kind_of b = KNum" "kind_of c = KNum" by simp_all
    with n assms(2,3) show ?thesis by (simp add: py_lt_num)
  qed
qed

lemma sort3_desc:
  assumes k: "key r1 = t1" "key r2 = t2" "key r3 = t3"
    and lt: "py_lt t1 t2 = Inr True" "py_lt t2 t3 = Inr True" "py_lt t1 t3 = Inr True"
            "py_lt t2 t1 = Inr False" "py_lt t3 t2 = Inr False" "py_lt t3 t1 = Inr False"
    and p: "items \<in> {[r1, r2, r3], [r1, r3, r2], [r2, r1, r3], [r2, r3, r1], [r3, r1, r2], [r3, r2, r1]}"
  shows "sorted_py key items True = Inr [r3, r2, r1]"
proof -
  from p consider "items = [r1, r2, r3]" | "items = [r1, r3, r2]" | "items = [r2, r1, r3]"
    | "items = [r2, r3, r1]" | "items = [r3, r1, r2]" | "items = [r3, r2, r1]" by auto
  then show ?thesis
    by cases (simp_all add: sorted_py_def k lt)
qed

text \<open>
  C8. \<open>get_recent\<close> is \<open>limit_results\<close> of \<open>sort_by_field\<close> with \<open>reverse=True\<close>.
  For three records whose timestamps are strings or numbers with \<open>ta < tb < tc\<close>, given
  in any order, \<open>get_recent\<close> with limit 2 returns the record of \<open>tc\<close> and then the
  record of \<open>tb\<close>.
\<close>

theorem get_recent_is_limit_of_sort:
  "(\<exists>sorted_items. sort_by_field items timestamp_field True = Inr sorted_items \<and>
      get_recent items timestamp_field limit = Inr (limit_results sorted_items limit)) \<and>
   (map_of ra timestamp_field = Some ta \<and> map_of rb timestamp_field = Some tb \<and>
    map_of rc timestamp_field = Some tc \<and>
    (kind_of ta = KStr \<or> kind_of ta = KNum) \<and>
    py_lt ta tb = Inr True \<and> py_lt tb tc = Inr True \<and>
    recs \<in> {[ra, rb, rc], [ra, rc, rb], [rb, ra, rc], [rb, rc, ra], [rc, ra, rb], [rc, rb, ra]}
    \<longrightarrow> get_recent recs timestamp_field 2 = Inr [rc, rb])"
proof
  obtain out where "sort_by_field items timestamp_field True = Inr out"
    using sort_by_field_eq by blast
  then show "\<exists>sorted_items. sort_by_field items timestamp_field True = Inr sorted_items \<and>
      get_recent items timestamp_field limit = Inr (limit_results sorted_items limit)"
    by (simp add: get_recent_def)
next
  show "map_of ra timestamp_field = Some ta \<and> map_of rb timestamp_field = Some tb \<and>
    map_of rc timestamp_field = Some tc \<and>
    (kind_of ta = KStr \<or> kind_of ta = KNum) \<and>
    py_lt ta tb = Inr True \<and> py_lt tb tc = Inr True \<and>
    recs \<in> {[ra, rb, rc], [ra, rc, rb], [rb, ra, rc], [rb, rc, ra], [rc, ra, rb], [rc, rb, ra]}
    \<longrightarrow> get_recent recs timestamp_field 2 = Inr [rc, rb]"
  proof
    assume h: "map_of ra timestamp_field = Some ta \<and> map_of rb timestamp_field = Some tb \<and>
      map_of rc timestamp_field = Some tc \<and>
      (kind_of ta = KStr \<or> kind_of ta = KNum) \<and>
      py_lt ta tb = Inr True \<and> py_lt tb tc = Inr True \<and>
      recs \<in> {[ra, rb, rc], [ra, rc, rb], [rb, ra, rc], [rb, rc, ra], [rc, ra, rb], [rc, rb, ra]}"
    then have k: "field_key timestamp_field ra = ta" "field_key timestamp_field rb = tb"
      "field_key timestamp_field rc = tc"
      by (simp_all add: field_key_def dict_get_default_def)
    from h have s1: "kind_of ta = KStr \<or> kind_of ta = KNum"
      and l12: "py_lt ta tb = Inr True" and l23: "py_lt tb tc = Inr True" by blast+
    have s2: "kind_of tb = KStr \<or> kind_of tb = KNum"
      using s1 py_lt_Inr_kind[OF l12] by simp
    have l13: "py_lt ta tc = Inr True" using s1 l12 l23 by (rule py_lt_scalar_trans)
    have l21: "py_lt tb ta = Inr False" using s1 l12 by (rule py_lt_scalar_asym)
    have l32: "py_lt tc tb = Inr False" using s2 l23 by (rule py_lt_scalar_asym)
    have l31: "py_lt tc ta = Inr False" using s1 l13 by (rule py_lt_scalar_asym)
    from h have p: "recs \<in> {[ra, rb, rc], [ra, rc, rb], [rb, ra, rc], [rb, rc, ra], [rc, ra, rb], [rc, rb, ra]}"
      by blast
    have "sorted_py (field_key timestamp_field) recs True = Inr [rc, rb, ra]"
      using k l12 l23 l13 l21 l32 l31 p by (rule sort3_desc)
    then show "get_recent recs timestamp_field 2 = Inr [rc, rb]"
      by (simp add: get_recent_def sort_by_field_def limit_results_def)
  qed
qed

theorem get_recent_is_limit_of_sort_witness:
  "get_recent [[(''timestamp'', PStr ''2024-01-02'')], [(''timestamp'', PStr ''2024-01-01'')],
               [(''timestamp'', PStr ''2024-01-03'')]] ''timestamp'' 2
     = Inr [[(''timestamp'', PStr ''2024-01-03'')], [(''timestamp'', PStr ''2024-01-02'')]]"
proof -
  have "py_lt (PStr ''2024-01-01'') (PStr ''2024-01-02'') = Inr True" by code_simp
  moreover have "py_lt (PStr ''2024-01-02'') (PStr ''2024-01-03'') = Inr True" by code_simp
  ultimately show ?thesis
    using get_recent_is_limit_of_sort
      [where items = "[]" and limit = 2 and timestamp_field = "''timestamp''"
         and ra = "[(''timestamp'', PStr ''2024-01-01'')]" and ta = "PStr ''2024-01-01''"
         and rb = "[(''timestamp'', PStr ''2024-01-02'')]" and tb = "PStr ''2024-01-02''"
         and rc = "[(''timestamp'', PStr ''2024-01-03'')]" and tc = "PStr ''2024-01-03''"
         and recs = "[[(''timestamp'', PStr ''2024-01-02'')], [(''timestamp'', PStr ''2024-01-01'')],
               [(''timestamp'', PStr ''2024-01-03'')]]"]
    by simp
qed

section \<open>Properties of the codec\<close>

subsection \<open>Strings and numbers are read back\<close>

lemma hex_val_hexdigit: "d < 16 \<Longrightarrow> hex_val (hexdigit d) = Some d"
  by (simp add: hex_val_def hexdigit_def Let_def)

lemma scanstring_plain:
  "c \<noteq> CHR 0x22 \<Longrightarrow> c \<noteq> CHR 0x5C \<Longrightarrow> 32 \<le> (of_char c :: nat) \<Longrightarrow>
   scanstring (c # rest) = map_res ((#) c) (scanstring rest)"
  by simp

lemma scanstring_simple_escape:
  "e \<noteq> CHR ''u'' \<Longrightarrow> unescape e = Some ch \<Longrightarrow>
   scanstring (CHR 0x5C # e # rest) = map_res ((#) ch) (scanstring rest)"
  by simp

lemma scanstring_u00:
  "scanstring (CHR 0x5C # CHR ''u'' # CHR ''0'' # CHR ''0'' # hex2 c @ rest)
     = map_res ((#) c) (scanstring rest)"
proof -
  let ?n = "of_char c :: nat"
  have n: "?n < 256" by simp
  have a: "hex_val (hexdigit (?n div 16)) = Some (?n div 16)"
    by (rule hex_val_hexdigit) (use n in arith)
  have b: "hex_val (hexdigit (?n mod 16)) = Some (?n mod 16)"
    by (rule hex_val_hexdigit) simp
  have z: "hex_val CHR ''0'' = Some 0" by (simp add: hex_val_def)
  have "char_of (?n div 16 * 16 + ?n mod 16) = c" by simp
  then show ?thesis using a b z n by (simp add: hex2_def)
qed

lemma scanstring_escape_char:
  "scanstring (json_escape_char c @ rest) = map_res ((#) c) (scanstring rest)"
proof -
  consider "c = CHR 0x22" | "c = CHR 0x5C" | "c = CHR 0x0A" | "c = CHR 0x0D" | "c = CHR 0x09"
    | "c = CHR 0x08" | "c = CHR 0x0C"
    | "c \<notin> {CHR 0x22, CHR 0x5C, CHR 0x0A, CHR 0x0D, CHR 0x09, CHR 0x08, CHR 0x0C}"
      "32 \<le> (of_char c :: nat) \<and> (of_char c :: nat) \<le> 126"
    | "c \<notin> {CHR 0x22, CHR 0x5C, CHR 0x0A, CHR 0x0D, CHR 0x09, CHR 0x08, CHR 0x0C}"
      "\<not> (32 \<le> (of_char c :: nat) \<and> (of_char c :: nat) \<le> 126)"
    by blast
  then show ?thesis
  proof cases
    case 8
    then have "json_escape_char c = [c]" by (simp add: json_escape_char_def)
    with 8 show ?thesis by simp
  next
    case 9
    then have "json_escape_char c = [CHR 0x5C, CHR ''u'', CHR ''0'', CHR ''0''] @ hex2 c"
      by (simp add: json_escape_char_def)
    then show ?thesis using scanstring_u00[of c rest] by simp
  qed (simp_all add: json_escape_char_def unescape_def)
qed

lemma scanstring_json_str:
  "scanstring (concat (map json_escape_char s) @ CHR 0x22 # rest) = Inr (s, rest)"
proof (induction s)
  case Nil show ?case by simp
next
  case (Cons c s)
  have "scanstring (concat (map json_escape_char (c # s)) @ CHR 0x22 # rest)
        = scanstring (json_escape_char c @ (concat (map json_escape_char s) @ CHR 0x22 # rest))"
    by simp
  also have "\<dots> = map_res ((#) c) (scanstring (concat (map json_escape_char s) @ CHR 0x22 # rest))"
    by (rule scanstring_escape_char)
  also have "\<dots> = Inr (c # s, rest)" by (simp add: Cons.IH map_res_def)
  finally show ?case .
qed

declare nat_dec.simps [simp del]

lemma of_char_digit_char: "d < 10 \<Longrightarrow> (of_char (digit_char d) :: nat) = 48 + d"
  by (simp add: digit_char_def)

lemma is_digit_digit_char: "d < 10 \<Longrightarrow> is_digit (digit_char d)"
  by (simp add: is_digit_def of_char_digit_char)

lemma digit_val_digit_char: "d < 10 \<Longrightarrow> digit_val (digit_char d) = d"
  by (simp add: digit_val_def of_char_digit_char)

lemma digit_char_zero: "d < 10 \<Longrightarrow> digit_char d = CHR ''0'' \<longleftrightarrow> d = 0"
proof -
  assume d: "d < 10"
  have "digit_char d = CHR ''0'' \<longleftrightarrow> (of_char (digit_char d) :: nat) = of_char CHR ''0''"
    by (simp only: of_char_eq_iff)
  also have "\<dots> \<longleftrightarrow> d = 0" using d by (simp add: of_char_digit_char)
  finally show ?thesis .
qed

lemma nat_dec_nonempty: "nat_dec n \<noteq> []"
  by (subst nat_dec.simps) simp

lemma scan_digits_nat_dec:
  "scan_digits acc (nat_dec n @ rest) = scan_digits (acc * 10 ^ length (nat_dec n) + n) rest"
proof (induction n arbitrary: acc rest rule: nat_dec.induct)
  case (1 n)
  show ?case
  proof (cases "n < 10")
    case True
    then have "nat_dec n = [digit_char n]" by (subst nat_dec.simps) simp
    with True show ?thesis
      by (simp add: is_digit_digit_char digit_val_digit_char mult.commute)
  next
    case False
    let ?q = "n div 10" and ?r = "n mod 10"
    have e: "nat_dec n = nat_dec ?q @ [digit_char ?r]" using False by (subst nat_dec.simps) simp
    have r: "?r < 10" by simp
    have "scan_digits acc (nat_dec n @ rest)
          = scan_digits acc (nat_dec ?q @ (digit_char ?r # rest))" by (simp add: e)
    also have "\<dots> = scan_digits (acc * 10 ^ length (nat_dec ?q) + ?q) (digit_char ?r # rest)"
      using False by (rule "1.IH")
    also have "\<dots> = scan_digits (10 * (acc * 10 ^ length (nat_dec ?q) + ?q) + ?r) rest"
      using r by (simp add: is_digit_digit_char digit_val_digit_char)
    also have "10 * (acc * 10 ^ length (nat_dec ?q) + ?q) + ?r
               = acc * 10 ^ length (nat_dec n) + n"
      by (simp add: e algebra_simps)
    finally show ?thesis .
  qed
qed

lemma nat_dec_hd:
  "is_digit (hd (nat_dec n)) \<and> (hd (nat_dec n) = CHR ''0'' \<longleftrightarrow> n = 0)"
proof (induction n rule: nat_dec.induct)
  case (1 n)
  show ?case
  proof (cases "n < 10")
    case True
    then have "nat_dec n = [digit_char n]" by (subst nat_dec.simps) simp
    with True show ?thesis by (simp add: is_digit_digit_char digit_char_zero)
  next
    case False
    have e: "nat_dec n = nat_dec (n div 10) @ [digit_char (n mod 10)]"
      using False by (subst nat_dec.simps) simp
    have "hd (nat_dec n) = hd (nat_dec (n div 10))"
      by (simp add: e nat_dec_nonempty)
    moreover have "n div 10 \<noteq> 0" using False by simp
    moreover have "n \<noteq> 0" using False by simp
    ultimately show ?thesis using "1.IH"[OF False] by simp
  qed
qed

lemma value_end_scan: "value_end rest \<Longrightarrow> scan_digits acc rest = (acc, rest)"
  by (cases rest) (auto simp: value_end_def is_digit_def)

lemma value_end_float: "value_end rest \<Longrightarrow> \<not> float_tail rest"
  by (cases rest) (auto simp: value_end_def float_tail_def)

lemma match_number_nat_dec:
  assumes "value_end rest"
  shows "match_number (nat_dec n @ rest) = Inr (PInt (int n), rest)"
proof -
  obtain d ds where e: "nat_dec n = d # ds" using nat_dec_nonempty by (cases "nat_dec n") auto
  have dg: "is_digit d" and z: "d = CHR ''0'' \<longleftrightarrow> n = 0" using nat_dec_hd[of n] e by simp_all
  have nm: "d \<noteq> CHR ''-''" using dg by (auto simp: is_digit_def)
  have "scan_digits 0 (nat_dec n @ rest) = (n, rest)"
    using scan_digits_nat_dec[of 0 n rest] value_end_scan[OF assms] by simp
  then have s: "scan_digits (digit_val d) (ds @ rest) = (n, rest)" using e dg by simp
  show ?thesis
  proof (cases "n = 0")
    case True
    then have "nat_dec n = ''0''" using digit_char_zero[of 0] by (subst nat_dec.simps) simp
    then show ?thesis using True value_end_float[OF assms]
      by (simp add: match_number_def is_digit_def)
  next
    case False
    then have "d \<noteq> CHR ''0''" using z by simp
    then show ?thesis using e dg nm s value_end_float[OF assms] by (simp add: match_number_def)
  qed
qed

lemma match_number_int_dec:
  assumes "value_end rest"
  shows "match_number (int_dec i @ rest) = Inr (PInt i, rest)"
proof (cases "i < 0")
  case False
  then show ?thesis using match_number_nat_dec[OF assms, of "nat i"] by (simp add: int_dec_def)
next
  case True
  let ?n = "nat (- i)"
  obtain d ds where e: "nat_dec ?n = d # ds" using nat_dec_nonempty by (cases "nat_dec ?n") auto
  have dg: "is_digit d" and z: "d = CHR ''0'' \<longleftrightarrow> ?n = 0" using nat_dec_hd[of ?n] e by simp_all
  have nz: "d \<noteq> CHR ''0''" using z True by simp
  have "scan_digits 0 (nat_dec ?n @ rest) = (?n, rest)"
    using scan_digits_nat_dec[of 0 ?n rest] value_end_scan[OF assms] by simp
  then have s: "scan_digits (digit_val d) (ds @ rest) = (?n, rest)" using e dg by simp
  have "int_dec i @ rest = CHR ''-'' # d # ds @ rest" using True e by (simp add: int_dec_def)
  then show ?thesis using dg nz s value_end_float[OF assms] True by (simp add: match_number_def)
qed


subsection \<open>Values are read back\<close>

lemma skip_ws_start: "\<not> is_ws c \<Longrightarrow> skip_ws (c # s) = c # s"
  by (simp add: skip_ws_def)

lemma skip_ws_space: "skip_ws (CHR '' '' # s) = skip_ws s"
  by (simp add: skip_ws_def is_ws_def)

lemma int_dec_start:
  "\<exists>c cs. int_dec i = c # cs \<and> (is_digit c \<or> (c = CHR ''-'' \<and> cs \<noteq> [] \<and> is_digit (hd cs)))"
proof (cases "i < 0")
  case True
  obtain d ds where "nat_dec (nat (- i)) = d # ds"
    using nat_dec_nonempty by (cases "nat_dec (nat (- i))") auto
  then show ?thesis using True nat_dec_hd[of "nat (- i)"] by (simp add: int_dec_def)
next
  case False
  obtain d ds where "nat_dec (nat i) = d # ds"
    using nat_dec_nonempty by (cases "nat_dec (nat i)") auto
  then show ?thesis using False nat_dec_hd[of "nat i"] by (simp add: int_dec_def)
qed

lemma parse_value_int_dec:
  assumes "value_end rest"
  shows "parse_value (Suc n) (int_dec i @ rest) = Inr (PInt i, rest)"
proof -
  obtain c cs where e: "int_dec i = c # cs"
    and c: "is_digit c \<or> (c = CHR ''-'' \<and> cs \<noteq> [] \<and> is_digit (hd cs))"
    using int_dec_start by blast
  have 1: "c \<noteq> CHR 0x22" "c \<noteq> CHR ''{''" "c \<noteq> CHR ''[''" "c \<noteq> CHR ''n''" "c \<noteq> CHR ''t''"
    "c \<noteq> CHR ''f''" "c \<noteq> CHR ''N''" "c \<noteq> CHR ''I''"
    using c by (auto simp: is_digit_def)
  have 2: "\<not> (c = CHR ''-'' \<and> prefix ''Infinity'' (cs @ rest))"
  proof (cases "c = CHR ''-''")
    case False then show ?thesis by simp
  next
    case True
    with c obtain d ds where "cs = d # ds" "is_digit d" by (cases cs) (auto simp: is_digit_def)
    then show ?thesis by (auto simp: is_digit_def)
  qed
  have "parse_value (Suc n) (c # cs @ rest) = match_number (c # cs @ rest)"
  proof (cases "c = CHR ''-''")
    case True
    with 2 have "\<not> prefix ''Infinity'' (cs @ rest)" by simp
    with True show ?thesis by simp
  next
    case False
    with 1 show ?thesis by simp
  qed
  then show ?thesis using match_number_int_dec[OF assms, of i] e by simp
qed

lemma json_dumps_start:
  "\<exists>c cs. json_dumps v = c # cs \<and> \<not> is_ws c \<and> c \<noteq> CHR '']''"
proof (cases v)
  case (PInt i)
  obtain c cs where "int_dec i = c # cs"
    "is_digit c \<or> (c = CHR ''-'' \<and> cs \<noteq> [] \<and> is_digit (hd cs))"
    using int_dec_start by blast
  then show ?thesis using PInt by (auto simp: is_digit_def is_ws_def)
qed (simp_all add: is_ws_def json_str_def)

lemma json_list_Cons:
  "json_list (x # xs) = json_dumps x @ (if xs = [] then [] else '', '' @ json_list xs)"
  by (cases xs) simp_all

lemma json_items_Cons:
  "json_items ((k, v) # kvs) =
     json_str k @ '': '' @ json_dumps v @ (if kvs = [] then [] else '', '' @ json_items kvs)"
  by (cases kvs) simp_all

lemma json_list_start:
  "xs \<noteq> [] \<Longrightarrow> \<exists>c cs. json_list xs = c # cs \<and> \<not> is_ws c \<and> c \<noteq> CHR '']''"
proof (cases xs)
  case Nil
  assume "xs \<noteq> []" with Nil show ?thesis by simp
next
  case (Cons x xs')
  obtain c cs where "json_dumps x = c # cs" "\<not> is_ws c" "c \<noteq> CHR '']''"
    using json_dumps_start[of x] by blast
  then show ?thesis using Cons by (simp add: json_list_Cons)
qed

lemma json_items_start:
  "kvs \<noteq> [] \<Longrightarrow> \<exists>cs. json_items kvs = CHR 0x22 # cs"
proof (cases kvs)
  case Nil
  assume "kvs \<noteq> []" with Nil show ?thesis by simp
next
  case (Cons kv kvs')
  obtain k v where "kv = (k, v)" by (cases kv)
  then show ?thesis using Cons by (simp add: json_items_Cons json_str_def)
qed

lemma dict_set_fresh: "k \<notin> fst ` set d \<Longrightarrow> dict_set d k v = d @ [(k, v)]"
  by (simp add: dict_set_def)

lemma fold_dict_set_distinct:
  "distinct (map fst kvs) \<Longrightarrow> fst ` set kvs \<inter> fst ` set acc = {} \<Longrightarrow>
   fold (\<lambda>(k, v) d. dict_set d k v) kvs acc = acc @ kvs"
proof (induction kvs arbitrary: acc)
  case Nil show ?case by simp
next
  case (Cons kv kvs)
  obtain k v where kv: "kv = (k, v)" by (cases kv)
  have f: "k \<notin> fst ` set acc" using Cons.prems(2) kv by auto
  have d: "distinct (map fst kvs)" using Cons.prems(1) by simp
  have i: "fst ` set kvs \<inter> fst ` set (acc @ [(k, v)]) = {}"
    using Cons.prems kv by auto
  show ?case using Cons.IH[OF d i] f kv by (simp add: dict_set_fresh)
qed

lemma dict_of_pairs_distinct: "distinct (map fst kvs) \<Longrightarrow> dict_of_pairs kvs = kvs"
  using fold_dict_set_distinct[of kvs "[]"] by (simp add: dict_of_pairs_def)


lemma parse_elems_last:
  assumes "parse_value m (json_dumps x @ CHR '']'' # rest) = Inr (x, CHR '']'' # rest)"
  shows "parse_elems (Suc m) (json_dumps x @ CHR '']'' # rest) = Inr ([x], rest)"
  using assms by (simp add: skip_ws_start is_ws_def)

lemma parse_elems_more:
  assumes "parse_value m (json_dumps x @ '', '' @ l @ CHR '']'' # rest)
             = Inr (x, '', '' @ l @ CHR '']'' # rest)"
    and "parse_elems m (l @ CHR '']'' # rest) = Inr (ys, rest)"
    and "l = c # cs" "\<not> is_ws c"
  shows "parse_elems (Suc m) (json_dumps x @ '', '' @ l @ CHR '']'' # rest) = Inr (x # ys, rest)"
proof -
  have "skip_ws ('', '' @ l @ CHR '']'' # rest) = CHR '','' # CHR '' '' # l @ CHR '']'' # rest"
    by (simp add: skip_ws_start is_ws_def)
  moreover have "skip_ws (CHR '' '' # l @ CHR '']'' # rest) = l @ CHR '']'' # rest"
    using assms(3,4) by (simp add: skip_ws_space skip_ws_start)
  ultimately show ?thesis using assms(1,2) by (simp add: map_res_def)
qed

lemma parse_members_key:
  "parse_members (Suc m) (json_str k @ '': '' @ s) =
     (case parse_value m (skip_ws s) of
        Inl e \<Rightarrow> Inl e
      | Inr (v, r3) \<Rightarrow>
          (case skip_ws r3 of
             [] \<Rightarrow> Inl JSONDecodeError
           | c3 # r4 \<Rightarrow>
               if c3 = CHR ''}'' then Inr ([(k, v)], r4)
               else if c3 = CHR '','' then map_res ((#) (k, v)) (parse_members m (skip_ws r4))
               else Inl JSONDecodeError))"
proof -
  have "json_str k @ '': '' @ s
        = CHR 0x22 # (concat (map json_escape_char k) @ CHR 0x22 # ('': '' @ s))"
    by (simp add: json_str_def)
  moreover have "scanstring (concat (map json_escape_char k) @ CHR 0x22 # ('': '' @ s))
        = Inr (k, '': '' @ s)" by (rule scanstring_json_str)
  moreover have "skip_ws ('': '' @ s) = CHR '':'' # CHR '' '' # s"
    by (simp add: skip_ws_start is_ws_def)
  ultimately show ?thesis by (simp add: skip_ws_space)
qed

lemma parse_members_last:
  assumes "parse_value m (json_dumps v @ CHR ''}'' # rest) = Inr (v, CHR ''}'' # rest)"
  shows "parse_members (Suc m) (json_str k @ '': '' @ json_dumps v @ CHR ''}'' # rest)
           = Inr ([(k, v)], rest)"
proof -
  obtain c cs where "json_dumps v = c # cs" "\<not> is_ws c" using json_dumps_start[of v] by blast
  then have "skip_ws (json_dumps v @ CHR ''}'' # rest) = json_dumps v @ CHR ''}'' # rest"
    by (simp add: skip_ws_start)
  then show ?thesis using assms
    by (subst parse_members_key) (simp add: skip_ws_start is_ws_def)
qed

lemma parse_members_more:
  assumes "parse_value m (json_dumps v @ '', '' @ l @ CHR ''}'' # rest)
             = Inr (v, '', '' @ l @ CHR ''}'' # rest)"
    and "parse_members m (l @ CHR ''}'' # rest) = Inr (kvs, rest)"
    and "l = c # cs" "\<not> is_ws c"
  shows "parse_members (Suc m) (json_str k @ '': '' @ json_dumps v @ '', '' @ l @ CHR ''}'' # rest)
           = Inr ((k, v) # kvs, rest)"
proof -
  obtain d ds where "json_dumps v = d # ds" "\<not> is_ws d" using json_dumps_start[of v] by blast
  then have 1: "skip_ws (json_dumps v @ '', '' @ l @ CHR ''}'' # rest)
                = json_dumps v @ '', '' @ l @ CHR ''}'' # rest"
    by (simp add: skip_ws_start)
  have 2: "skip_ws (CHR '','' # CHR '' '' # l @ CHR ''}'' # rest)
           = CHR '','' # CHR '' '' # l @ CHR ''}'' # rest"
    by (simp add: skip_ws_start is_ws_def)
  have 3: "skip_ws (CHR '' '' # l @ CHR ''}'' # rest) = l @ CHR ''}'' # rest"
    using assms(3,4) by (simp add: skip_ws_space skip_ws_start)
  show ?thesis
    by (subst parse_members_key) (simp only: 1 assms(1), simp add: 2 3 assms(2) map_res_def)
qed

lemma parse_value_list:
  assumes "l = c # cs" "\<not> is_ws c" "c \<noteq> CHR '']''"
  shows "parse_value (Suc n) (CHR ''['' # l @ s) = map_res PList (parse_elems n (l @ s))"
  using assms by (simp add: skip_ws_start)

lemma parse_value_dict:
  assumes "l = CHR 0x22 # cs"
  shows "parse_value (Suc n) (CHR ''{'' # l @ s)
           = map_res (\<lambda>pairs. PDict (dict_of_pairs pairs)) (parse_members n (l @ s))"
  using assms by (simp add: skip_ws_start is_ws_def)


lemma value_end_simps:
  "value_end []" "value_end (CHR '','' # s)" "value_end (CHR '']'' # s)" "value_end (CHR ''}'' # s)"
  by (simp_all add: value_end_def)

lemma parse_json_dumps:
  "wf_pyval v \<Longrightarrow> value_end rest \<Longrightarrow> length (json_dumps v) < n \<Longrightarrow>
     parse_value n (json_dumps v @ rest) = Inr (v, rest)"
  "xs \<noteq> [] \<Longrightarrow> wf_pylist xs \<Longrightarrow> length (json_list xs) + 1 < n \<Longrightarrow>
     parse_elems n (json_list xs @ CHR '']'' # rest) = Inr (xs, rest)"
  "kvs \<noteq> [] \<Longrightarrow> wf_pyitems kvs \<Longrightarrow> length (json_items kvs) + 1 < n \<Longrightarrow>
     parse_members n (json_items kvs @ CHR ''}'' # rest) = Inr (kvs, rest)"
proof (induction v and xs and kvs arbitrary: n rest and n rest and n rest
       rule: json_dumps_json_list_json_items.induct)
  case 1
  then obtain m where "n = Suc m" by (cases n) auto
  then show ?case by simp
next
  case (2 b)
  then obtain m where "n = Suc m" by (cases n) auto
  then show ?case by simp
next
  case (3 i)
  then obtain m where "n = Suc m" by (cases n) auto
  then show ?case using parse_value_int_dec[OF "3.prems"(2)] by simp
next
  case (4 s)
  then obtain m where "n = Suc m" by (cases n) auto
  then show ?case using scanstring_json_str[of s rest] by (simp add: json_str_def map_res_def)
next
  case (5 xs)
  from "5.prems"(3) obtain m where n: "n = Suc m" by (cases n) auto
  show ?case
  proof (cases "xs = []")
    case True
    then show ?thesis using n by (simp add: skip_ws_start is_ws_def)
  next
    case False
    then obtain c cs where l: "json_list xs = c # cs" "\<not> is_ws c" "c \<noteq> CHR '']''"
      using json_list_start by blast
    have w: "wf_pylist xs" using "5.prems"(1) by simp
    have f: "length (json_list xs) + 1 < m" using "5.prems"(3) n by simp
    have "parse_elems m (json_list xs @ CHR '']'' # rest) = Inr (xs, rest)"
      using False w f by (rule "5.IH")
    moreover have "parse_value (Suc m) (CHR ''['' # json_list xs @ CHR '']'' # rest)
        = map_res PList (parse_elems m (json_list xs @ CHR '']'' # rest))"
      using l by (rule parse_value_list)
    ultimately show ?thesis using n by (simp add: map_res_def)
  qed
next
  case (6 kvs)
  from "6.prems"(3) obtain m where n: "n = Suc m" by (cases n) auto
  show ?case
  proof (cases "kvs = []")
    case True
    then show ?thesis using n by (simp add: skip_ws_start is_ws_def)
  next
    case False
    then obtain cs where l: "json_items kvs = CHR 0x22 # cs"
      using json_items_start by blast
    have w: "wf_pyitems kvs" and d: "distinct (map fst kvs)" using "6.prems"(1) by simp_all
    have f: "length (json_items kvs) + 1 < m" using "6.prems"(3) n by simp
    have "parse_members m (json_items kvs @ CHR ''}'' # rest) = Inr (kvs, rest)"
      using False w f by (rule "6.IH")
    moreover have "parse_value (Suc m) (CHR ''{'' # json_items kvs @ CHR ''}'' # rest)
        = map_res (\<lambda>pairs. PDict (dict_of_pairs pairs)) (parse_members m (json_items kvs @ CHR ''}'' # rest))"
      using l by (rule parse_value_dict)
    ultimately show ?thesis using n by (simp add: map_res_def dict_of_pairs_distinct[OF d])
  qed
next
  case 7
  then show ?case by simp
next
  case (8 x)
  from "8.prems"(3) obtain m where n: "n = Suc m" by (cases n) auto
  have "parse_value m (json_dumps x @ CHR '']'' # rest) = Inr (x, CHR '']'' # rest)"
    using "8.prems" n by (intro "8.IH") (simp_all add: value_end_simps)
  then have "parse_elems (Suc m) (json_dumps x @ CHR '']'' # rest) = Inr ([x], rest)"
    by (rule parse_elems_last)
  then show ?case using n by simp
next
  case (9 x y ys)
  from "9.prems"(3) obtain m where n: "n = Suc m" by (cases n) auto
  let ?l = "json_list (y # ys)"
  obtain c cs where l: "?l = c # cs" "\<not> is_ws c"
    using json_list_start[of "y # ys"] by auto
  have 1: "parse_value m (json_dumps x @ '', '' @ ?l @ CHR '']'' # rest)
             = Inr (x, '', '' @ ?l @ CHR '']'' # rest)"
    using "9.prems" n by (intro "9.IH"(1)) (simp_all add: value_end_simps)
  have 2: "parse_elems m (?l @ CHR '']'' # rest) = Inr (y # ys, rest)"
    using "9.prems" n by (intro "9.IH"(2)) simp_all
  have "parse_elems (Suc m) (json_dumps x @ '', '' @ ?l @ CHR '']'' # rest) = Inr (x # y # ys, rest)"
    using 1 2 l by (rule parse_elems_more)
  then show ?case using n by simp
next
  case 10
  then show ?case by simp
next
  case (11 k v)
  from "11.prems"(3) obtain m where n: "n = Suc m" by (cases n) auto
  have "parse_value m (json_dumps v @ CHR ''}'' # rest) = Inr (v, CHR ''}'' # rest)"
    using "11.prems" n by (intro "11.IH") (simp_all add: value_end_simps)
  then have "parse_members (Suc m) (json_str k @ '': '' @ json_dumps v @ CHR ''}'' # rest)
           = Inr ([(k, v)], rest)"
    by (rule parse_members_last)
  then show ?case using n by simp
next
  case (12 k v kv kvs)
  from "12.prems"(3) obtain m where n: "n = Suc m" by (cases n) auto
  let ?l = "json_items (kv # kvs)"
  obtain cs where l: "?l = CHR 0x22 # cs" using json_items_start[of "kv # kvs"] by auto
  have nw: "\<not> is_ws (CHR 0x22)" by (simp add: is_ws_def)
  have 1: "parse_value m (json_dumps v @ '', '' @ ?l @ CHR ''}'' # rest)
             = Inr (v, '', '' @ ?l @ CHR ''}'' # rest)"
    using "12.prems" n by (intro "12.IH"(1)) (simp_all add: value_end_simps)
  have 2: "parse_members m (?l @ CHR ''}'' # rest) = Inr (kv # kvs, rest)"
    using "12.prems" n by (intro "12.IH"(2)) simp_all
  have "parse_members (Suc m) (json_str k @ '': '' @ json_dumps v @ '', '' @ ?l @ CHR ''}'' # rest)
           = Inr ((k, v) # kv # kvs, rest)"
    using 1 2 l nw by (rule parse_members_more)
  then show ?case using n by simp
qed


subsection \<open>The parser consumes its input and stays within its budget\<close>

lemma length_skip_ws: "length (skip_ws s) \<le> length s"
  by (simp add: skip_ws_def length_dropWhile_le)

lemma map_res_Inr: "map_res f res = Inr (y, rest) \<Longrightarrow> \<exists>x. res = Inr (x, rest)"
  by (auto simp: map_res_def split: sum.splits)

lemma map_res_fuel: "map_res f res = Inl OutOfFuel \<longleftrightarrow> res = Inl OutOfFuel"
  by (auto simp: map_res_def split: sum.splits)

lemma scanstring_step:
  assumes "scanstring (c # cs) = Inr (str, rest)"
  shows "rest = cs \<or> (\<exists>s' x. scanstring s' = Inr (x, rest) \<and> length s' \<le> length cs)"
proof (cases "c = CHR 0x22")
  case True with assms show ?thesis by simp
next
  case q: False
  show ?thesis
  proof (cases "c = CHR 0x5C")
    case False
    with q assms have "map_res ((#) c) (scanstring cs) = Inr (str, rest)"
      by (auto split: if_splits)
    from map_res_Inr[OF this] show ?thesis by auto
  next
    case True
    with q assms obtain e es where cs: "cs = e # es" by (cases cs) auto
    show ?thesis
    proof (cases "e = CHR ''u''")
      case False
      with q True cs assms obtain ch where "map_res ((#) ch) (scanstring es) = Inr (str, rest)"
        by (auto split: option.splits)
      from map_res_Inr[OF this] show ?thesis using cs by auto
    next
      case u: True
      with q True cs assms obtain h1 h2 h3 h4 r where es: "es = h1 # h2 # h3 # h4 # r"
        by (auto split: list.splits)
      with q True cs u assms obtain ch where "map_res ((#) ch) (scanstring r) = Inr (str, rest)"
        by (auto split: option.splits if_splits)
      from map_res_Inr[OF this] show ?thesis using cs es by auto
    qed
  qed
qed

lemma scanstring_shorter: "scanstring s = Inr (str, rest) \<Longrightarrow> length rest < length s"
proof (induction "length s" arbitrary: s str rule: less_induct)
  case less
  from less.prems obtain c cs where s: "s = c # cs" by (cases s) auto
  from scanstring_step[OF less.prems[unfolded s]]
  consider "rest = cs" | s' x where "scanstring s' = Inr (x, rest)" "length s' \<le> length cs"
    by blast
  then show ?case
  proof cases
    case 1 then show ?thesis using s by simp
  next
    case 2
    then have "length s' < length s" using s by simp
    from less.hyps[OF this 2(1)] 2(2) s show ?thesis by simp
  qed
qed

lemma scanstring_fuel_step:
  assumes "scanstring (c # cs) = Inl OutOfFuel"
  shows "\<exists>s'. scanstring s' = Inl OutOfFuel \<and> length s' \<le> length cs"
proof (cases "c = CHR 0x22")
  case True with assms show ?thesis by simp
next
  case q: False
  show ?thesis
  proof (cases "c = CHR 0x5C")
    case False
    with q assms have "map_res ((#) c) (scanstring cs) = Inl OutOfFuel"
      by (auto split: if_splits)
    then show ?thesis unfolding map_res_fuel by auto
  next
    case True
    with q assms obtain e es where cs: "cs = e # es" by (cases cs) auto
    show ?thesis
    proof (cases "e = CHR ''u''")
      case False
      with q True cs assms obtain ch where "map_res ((#) ch) (scanstring es) = Inl OutOfFuel"
        by (auto split: option.splits)
      then show ?thesis unfolding map_res_fuel using cs by auto
    next
      case u: True
      with q True cs assms obtain h1 h2 h3 h4 r where es: "es = h1 # h2 # h3 # h4 # r"
        by (auto split: list.splits)
      with q True cs u assms obtain ch where "map_res ((#) ch) (scanstring r) = Inl OutOfFuel"
        by (auto split: option.splits if_splits)
      then show ?thesis unfolding map_res_fuel using cs es by auto
    qed
  qed
qed

lemma scanstring_fuel: "scanstring s \<noteq> Inl OutOfFuel"
proof (induction "length s" arbitrary: s rule: less_induct)
  case less
  show ?case
  proof
    assume a: "scanstring s = Inl OutOfFuel"
    then obtain c cs where s: "s = c # cs" by (cases s) auto
    from scanstring_fuel_step[OF a[unfolded s]] obtain s' where
      s': "scanstring s' = Inl OutOfFuel" "length s' \<le> length cs" by blast
    then have "length s' < length s" using s by simp
    from less.hyps[OF this] s'(1) show False by simp
  qed
qed

lemma scan_digits_length: "length (snd (scan_digits acc s)) \<le> length s"
proof (induction s arbitrary: acc)
  case Nil show ?case by simp
next
  case (Cons c s)
  show ?case using Cons.IH[of "10 * acc + digit_val c"] by (simp add: le_SucI)
qed

lemma match_number_shorter: "match_number s = Inr (v, rest) \<Longrightarrow> length rest < length s"
proof -
  assume a: "match_number s = Inr (v, rest)"
  let ?neg = "s \<noteq> [] \<and> hd s = CHR ''-''"
  let ?s1 = "if ?neg then tl s else s"
  from a obtain d r where s1: "?s1 = d # r" by (cases ?s1) (auto simp: match_number_def Let_def)
  have l: "length ?s1 \<le> length s" by simp
  have "rest = r \<or> rest = snd (scan_digits (digit_val d) r)"
    using a s1 by (auto simp: match_number_def Let_def split: if_splits prod.splits)
  then have "length rest \<le> length r" using scan_digits_length[of "digit_val d" r] by auto
  moreover have "length ?s1 = Suc (length r)" by (simp only: s1 length_Cons)
  ultimately show ?thesis using l by linarith
qed

lemma match_number_fuel: "match_number s \<noteq> Inl OutOfFuel"
  by (auto simp: match_number_def Let_def split: list.splits prod.splits)


lemma skip_ws_Cons_length: "skip_ws r = c # r' \<Longrightarrow> length r' < length r"
  using length_skip_ws[of r] by simp

lemma prefix_drop_shorter: "prefix p s \<Longrightarrow> p \<noteq> [] \<Longrightarrow> length (drop (length p) s) < length s"
  by (auto simp: prefix_def)

lemma parse_value_shorter_step:
  assumes pe: "\<And>s vs rest. parse_elems n s = Inr (vs, rest) \<Longrightarrow> length rest < length s"
    and pm: "\<And>s kvs rest. parse_members n s = Inr (kvs, rest) \<Longrightarrow> length rest < length s"
    and a: "parse_value (Suc n) s = Inr (v, rest)"
  shows "length rest < length s"
proof -
  from a obtain c r where s: "s = c # r" by (cases s) auto
  consider (str) "c = CHR 0x22" | (obj) "c \<noteq> CHR 0x22" "c = CHR ''{''"
    | (arr) "c \<noteq> CHR 0x22" "c \<noteq> CHR ''{''" "c = CHR ''[''"
    | (other) "c \<noteq> CHR 0x22" "c \<noteq> CHR ''{''" "c \<noteq> CHR ''[''" by blast
  then show ?thesis
  proof cases
    case str
    with a s have "map_res PStr (scanstring r) = Inr (v, rest)" by simp
    from map_res_Inr[OF this] obtain x where "scanstring r = Inr (x, rest)" by blast
    from scanstring_shorter[OF this] s show ?thesis by simp
  next
    case obj
    with a s obtain c' r' where w: "skip_ws r = c' # r'" by (cases "skip_ws r") auto
    have l: "length r' < length r" using w by (rule skip_ws_Cons_length)
    show ?thesis
    proof (cases "c' = CHR ''}''")
      case True
      with a s obj w have "rest = r'" by simp
      with l s show ?thesis by simp
    next
      case False
      with a s obj w have "map_res (\<lambda>pairs. PDict (dict_of_pairs pairs)) (parse_members n (c' # r')) = Inr (v, rest)"
        by (auto split: if_splits)
      from map_res_Inr[OF this] obtain x where "parse_members n (c' # r') = Inr (x, rest)" by blast
      from pm[OF this] l s show ?thesis by simp
    qed
  next
    case arr
    with a s obtain c' r' where w: "skip_ws r = c' # r'" by (cases "skip_ws r") auto
    have l: "length r' < length r" using w by (rule skip_ws_Cons_length)
    show ?thesis
    proof (cases "c' = CHR '']''")
      case True
      with a s arr w have "rest = r'" by simp
      with l s show ?thesis by simp
    next
      case False
      with a s arr w have "map_res PList (parse_elems n (c' # r')) = Inr (v, rest)"
        by (auto split: if_splits)
      from map_res_Inr[OF this] obtain x where "parse_elems n (c' # r') = Inr (x, rest)" by blast
      from pe[OF this] l s show ?thesis by simp
    qed
  next
    case other
    consider (n) "prefix ''null'' s" | (t) "\<not> prefix ''null'' s" "prefix ''true'' s"
      | (f) "\<not> prefix ''null'' s" "\<not> prefix ''true'' s" "prefix ''false'' s"
      | (num) "\<not> prefix ''null'' s" "\<not> prefix ''true'' s" "\<not> prefix ''false'' s" by blast
    then show ?thesis
    proof cases
      case n
      with a s other have "rest = drop 4 s" by (auto split: if_splits)
      moreover have "length s \<ge> 4" using n by (auto simp: prefix_def)
      ultimately show ?thesis by simp
    next
      case t
      with a s other have "rest = drop 4 s" by (auto split: if_splits)
      moreover have "length s \<ge> 4" using t(2) by (auto simp: prefix_def)
      ultimately show ?thesis by simp
    next
      case f
      with a s other have "rest = drop 5 s" by (auto split: if_splits)
      moreover have "length s \<ge> 5" using f(3) by (auto simp: prefix_def)
      ultimately show ?thesis by simp
    next
      case num
      with a s other have "match_number s = Inr (v, rest)" by (auto split: if_splits)
      then show ?thesis by (rule match_number_shorter)
    qed
  qed
qed


lemma parse_elems_shorter_step:
  assumes pv: "\<And>s v rest. parse_value n s = Inr (v, rest) \<Longrightarrow> length rest < length s"
    and pe: "\<And>s vs rest. parse_elems n s = Inr (vs, rest) \<Longrightarrow> length rest < length s"
    and a: "parse_elems (Suc n) s = Inr (vs, rest)"
  shows "length rest < length s"
proof -
  from a obtain v r1 where v: "parse_value n s = Inr (v, r1)"
    by (cases "parse_value n s") auto
  have l1: "length r1 < length s" using v by (rule pv)
  from a v obtain c r where w: "skip_ws r1 = c # r" by (cases "skip_ws r1") auto
  have l2: "length r < length r1" using w by (rule skip_ws_Cons_length)
  show ?thesis
  proof (cases "c = CHR '']''")
    case True
    with a v w have "rest = r" by simp
    with l1 l2 show ?thesis by simp
  next
    case False
    with a v w have "map_res ((#) v) (parse_elems n (skip_ws r)) = Inr (vs, rest)"
      by (auto split: if_splits)
    from map_res_Inr[OF this] obtain x where "parse_elems n (skip_ws r) = Inr (x, rest)" by blast
    from pe[OF this] have "length rest < length (skip_ws r)" .
    with length_skip_ws[of r] l1 l2 show ?thesis by linarith
  qed
qed

lemma parse_members_shorter_step:
  assumes pv: "\<And>s v rest. parse_value n s = Inr (v, rest) \<Longrightarrow> length rest < length s"
    and pm: "\<And>s kvs rest. parse_members n s = Inr (kvs, rest) \<Longrightarrow> length rest < length s"
    and a: "parse_members (Suc n) s = Inr (kvs, rest)"
  shows "length rest < length s"
proof -
  from a obtain c r where s: "s = c # r" by (cases s) auto
  from a s have q: "c = CHR 0x22" by (auto split: if_splits)
  from a s q obtain k r1 where k: "scanstring r = Inr (k, r1)"
    by (cases "scanstring r") auto
  have l1: "length r1 < length r" using k by (rule scanstring_shorter)
  from a s q k obtain c1 r2 where w1: "skip_ws r1 = c1 # r2" by (cases "skip_ws r1") auto
  have l2: "length r2 < length r1" using w1 by (rule skip_ws_Cons_length)
  from a s q k w1 have c1: "c1 = CHR '':''" by (auto split: if_splits)
  from a s q k w1 c1 obtain v r3 where v: "parse_value n (skip_ws r2) = Inr (v, r3)"
    by (cases "parse_value n (skip_ws r2)") auto
  have "length r3 < length (skip_ws r2)" using v by (rule pv)
  with length_skip_ws[of r2] have l3: "length r3 < length r2" by linarith
  from a s q k w1 c1 v obtain c3 r4 where w3: "skip_ws r3 = c3 # r4" by (cases "skip_ws r3") auto
  have l4: "length r4 < length r3" using w3 by (rule skip_ws_Cons_length)
  show ?thesis
  proof (cases "c3 = CHR ''}''")
    case True
    with a s q k w1 c1 v w3 have "rest = r4" by simp
    with l1 l2 l3 l4 s show ?thesis by simp
  next
    case False
    with a s q k w1 c1 v w3 have "map_res ((#) (k, v)) (parse_members n (skip_ws r4)) = Inr (kvs, rest)"
      by (auto split: if_splits)
    from map_res_Inr[OF this] obtain x where "parse_members n (skip_ws r4) = Inr (x, rest)" by blast
    from pm[OF this] have "length rest < length (skip_ws r4)" .
    with length_skip_ws[of r4] l1 l2 l3 l4 s show ?thesis by simp
  qed
qed

lemma parse_shorter:
  "(\<forall>s v rest. parse_value n s = Inr (v, rest) \<longrightarrow> length rest < length s) \<and>
   (\<forall>s vs rest. parse_elems n s = Inr (vs, rest) \<longrightarrow> length rest < length s) \<and>
   (\<forall>s kvs rest. parse_members n s = Inr (kvs, rest) \<longrightarrow> length rest < length s)"
proof (induction n)
  case 0 show ?case by simp
next
  case (Suc n)
  have pv: "\<And>s v rest. parse_value n s = Inr (v, rest) \<Longrightarrow> length rest < length s"
    and pe: "\<And>s vs rest. parse_elems n s = Inr (vs, rest) \<Longrightarrow> length rest < length s"
    and pm: "\<And>s kvs rest. parse_members n s = Inr (kvs, rest) \<Longrightarrow> length rest < length s"
    using Suc.IH by blast+
  have "length rest < length s" if "parse_value (Suc n) s = Inr (v, rest)" for s v rest
    using pe pm that by (rule parse_value_shorter_step)
  moreover have "length rest < length s" if "parse_elems (Suc n) s = Inr (vs, rest)" for s vs rest
    using pv pe that by (rule parse_elems_shorter_step)
  moreover have "length rest < length s" if "parse_members (Suc n) s = Inr (kvs, rest)" for s kvs rest
    using pv pm that by (rule parse_members_shorter_step)
  ultimately show ?case by blast
qed

lemma parse_value_shorter: "parse_value n s = Inr (v, rest) \<Longrightarrow> length rest < length s"
  using parse_shorter[of n] by blast

lemma parse_value_fuel_step:
  assumes pe: "\<And>s. 2 * length s + 1 < n \<Longrightarrow> parse_elems n s \<noteq> Inl OutOfFuel"
    and pm: "\<And>s. 2 * length s + 1 < n \<Longrightarrow> parse_members n s \<noteq> Inl OutOfFuel"
    and f: "2 * length s < Suc n"
  shows "parse_value (Suc n) s \<noteq> Inl OutOfFuel"
proof
  assume a: "parse_value (Suc n) s = Inl OutOfFuel"
  then obtain c r where s: "s = c # r" by (cases s) auto
  consider (str) "c = CHR 0x22" | (obj) "c \<noteq> CHR 0x22" "c = CHR ''{''"
    | (arr) "c \<noteq> CHR 0x22" "c \<noteq> CHR ''{''" "c = CHR ''[''"
    | (other) "c \<noteq> CHR 0x22" "c \<noteq> CHR ''{''" "c \<noteq> CHR ''[''" by blast
  then show False
  proof cases
    case str
    with a s have "map_res PStr (scanstring r) = Inl OutOfFuel" by simp
    then show False using scanstring_fuel by (simp add: map_res_fuel)
  next
    case obj
    with a s obtain c' r' where w: "skip_ws r = c' # r'" by (cases "skip_ws r") auto
    have "length (c' # r') \<le> length r" using length_skip_ws[of r] w by simp
    then have b: "2 * length (c' # r') + 1 < n" using f s by simp
    from a s obj w have "map_res (\<lambda>pairs. PDict (dict_of_pairs pairs)) (parse_members n (c' # r')) = Inl OutOfFuel"
      by (auto split: if_splits)
    then have "parse_members n (c' # r') = Inl OutOfFuel" by (simp add: map_res_fuel)
    with pm[OF b] show False by simp
  next
    case arr
    with a s obtain c' r' where w: "skip_ws r = c' # r'" by (cases "skip_ws r") auto
    have "length (c' # r') \<le> length r" using length_skip_ws[of r] w by simp
    then have b: "2 * length (c' # r') + 1 < n" using f s by simp
    from a s arr w have "map_res PList (parse_elems n (c' # r')) = Inl OutOfFuel"
      by (auto split: if_splits)
    then have "parse_elems n (c' # r') = Inl OutOfFuel" by (simp add: map_res_fuel)
    with pe[OF b] show False by simp
  next
    case other
    with a s have "match_number s = Inl OutOfFuel" by (auto split: if_splits)
    then show False using match_number_fuel by simp
  qed
qed

lemma parse_elems_fuel_step:
  assumes pv: "\<And>s. 2 * length s < n \<Longrightarrow> parse_value n s \<noteq> Inl OutOfFuel"
    and pe: "\<And>s. 2 * length s + 1 < n \<Longrightarrow> parse_elems n s \<noteq> Inl OutOfFuel"
    and f: "2 * length s + 1 < Suc n"
  shows "parse_elems (Suc n) s \<noteq> Inl OutOfFuel"
proof
  assume a: "parse_elems (Suc n) s = Inl OutOfFuel"
  have f': "2 * length s < n" using f by simp
  show False
  proof (cases "parse_value n s")
    case (Inl e)
    with a have "e = OutOfFuel" by simp
    with Inl pv[OF f'] show False by simp
  next
    case (Inr p)
    obtain v r1 where p: "p = (v, r1)" by (cases p)
    have l1: "length r1 < length s" using Inr p parse_value_shorter by blast
    from a Inr p obtain c r where w: "skip_ws r1 = c # r" by (cases "skip_ws r1") auto
    have l2: "length r < length r1" using w by (rule skip_ws_Cons_length)
    from a Inr p w have "map_res ((#) v) (parse_elems n (skip_ws r)) = Inl OutOfFuel"
      by (auto split: if_splits)
    then have e: "parse_elems n (skip_ws r) = Inl OutOfFuel" by (simp add: map_res_fuel)
    have "2 * length (skip_ws r) + 1 < n" using length_skip_ws[of r] l1 l2 f' by linarith
    from pe[OF this] e show False by simp
  qed
qed

lemma parse_members_fuel_step:
  assumes pv: "\<And>s. 2 * length s < n \<Longrightarrow> parse_value n s \<noteq> Inl OutOfFuel"
    and pm: "\<And>s. 2 * length s + 1 < n \<Longrightarrow> parse_members n s \<noteq> Inl OutOfFuel"
    and f: "2 * length s + 1 < Suc n"
  shows "parse_members (Suc n) s \<noteq> Inl OutOfFuel"
proof
  assume a: "parse_members (Suc n) s = Inl OutOfFuel"
  then obtain c r where s: "s = c # r" by (cases s) auto
  from a s have q: "c = CHR 0x22" by (auto split: if_splits)
  show False
  proof (cases "scanstring r")
    case (Inl e)
    with a s q have "e = OutOfFuel" by simp
    with Inl scanstring_fuel show False by simp
  next
    case (Inr p)
    obtain k r1 where p: "p = (k, r1)" by (cases p)
    have l1: "length r1 < length r" using Inr p scanstring_shorter by blast
    from a s q Inr p obtain c1 r2 where w1: "skip_ws r1 = c1 # r2" by (cases "skip_ws r1") auto
    have l2: "length r2 < length r1" using w1 by (rule skip_ws_Cons_length)
    from a s q Inr p w1 have c1: "c1 = CHR '':''" by (auto split: if_splits)
    have fv: "2 * length (skip_ws r2) < n" using length_skip_ws[of r2] l1 l2 f s by simp
    show False
    proof (cases "parse_value n (skip_ws r2)")
      case (Inl e)
      with a s q Inr p w1 c1 have "e = OutOfFuel" by simp
      with Inl pv[OF fv] show False by simp
    next
      case v: (Inr pv')
      obtain v r3 where pv': "pv' = (v, r3)" by (cases pv')
      have "length r3 < length (skip_ws r2)" using v pv' parse_value_shorter by blast
      with length_skip_ws[of r2] have l3: "length r3 < length r2" by linarith
      from a s q Inr p w1 c1 v pv' obtain c3 r4 where w3: "skip_ws r3 = c3 # r4"
        by (cases "skip_ws r3") auto
      have l4: "length r4 < length r3" using w3 by (rule skip_ws_Cons_length)
      from a s q Inr p w1 c1 v pv' w3
      have "map_res ((#) (k, v)) (parse_members n (skip_ws r4)) = Inl OutOfFuel"
        by (auto split: if_splits)
      then have e: "parse_members n (skip_ws r4) = Inl OutOfFuel" by (simp add: map_res_fuel)
      have "2 * length (skip_ws r4) + 1 < n"
        using length_skip_ws[of r4] l1 l2 l3 l4 f s by simp
      from pm[OF this] e show False by simp
    qed
  qed
qed

lemma parse_fuel:
  "(\<forall>s. 2 * length s < n \<longrightarrow> parse_value n s \<noteq> Inl OutOfFuel) \<and>
   (\<forall>s. 2 * length s + 1 < n \<longrightarrow> parse_elems n s \<noteq> Inl OutOfFuel) \<and>
   (\<forall>s. 2 * length s + 1 < n \<longrightarrow> parse_members n s \<noteq> Inl OutOfFuel)"
proof (induction n)
  case 0 show ?case by simp
next
  case (Suc n)
  have pv: "\<And>s. 2 * length s < n \<Longrightarrow> parse_value n s \<noteq> Inl OutOfFuel"
    and pe: "\<And>s. 2 * length s + 1 < n \<Longrightarrow> parse_elems n s \<noteq> Inl OutOfFuel"
    and pm: "\<And>s. 2 * length s + 1 < n \<Longrightarrow> parse_members n s \<noteq> Inl OutOfFuel"
    using Suc.IH by blast+
  have "parse_value (Suc n) s \<noteq> Inl OutOfFuel" if "2 * length s < Suc n" for s
    using pe pm that by (rule parse_value_fuel_step)
  moreover have "parse_elems (Suc n) s \<noteq> Inl OutOfFuel" if "2 * length s + 1 < Suc n" for s
    using pv pe that by (rule parse_elems_fuel_step)
  moreover have "parse_members (Suc n) s \<noteq> Inl OutOfFuel" if "2 * length s + 1 < Suc n" for s
    using pv pm that by (rule parse_members_fuel_step)
  ultimately show ?case by blast
qed

lemma deserialize_data_fuel: "deserialize_data s \<noteq> Inl OutOfFuel"
proof -
  have "2 * length (skip_ws s) < Suc (2 * length s)" using length_skip_ws[of s] by simp
  then have "parse_value (Suc (2 * length s)) (skip_ws s) \<noteq> Inl OutOfFuel"
    using parse_fuel[of "Suc (2 * length s)"] by blast
  then show ?thesis
    unfolding deserialize_data_def
    by (cases "parse_value (Suc (2 * length s)) (skip_ws s)")
       (auto simp del: parse_value.simps split: if_splits)
qed

lemma py_eq_refl:
  "wf_pyval v \<Longrightarrow> py_eq v v"
  "wf_pylist xs \<Longrightarrow> py_eq_list xs xs"
  "wf_pyitems a \<Longrightarrow> distinct (map fst b) \<Longrightarrow> set a \<subseteq> set b \<Longrightarrow> py_eq_items a b"
proof (induction v and xs and a arbitrary: and and b rule: wf_pyval_wf_pylist_wf_pyitems.induct)
  case (7 k v kvs)
  have "map_of b k = Some v" using "7.prems" by simp
  then show ?case using 7 by simp
qed simp_all

text \<open>
  C1. For every record of the model (values built from strings, integers, booleans,
  \<open>None\<close>, lists and string-keyed dictionaries), \<open>deserialize_data\<close> of
  \<open>serialize_data\<close> returns the record itself, which is equal to it under \<open>==\<close>.
\<close>

theorem codec_round_trip:
  assumes "wf_pyval (PDict r)"
  shows "deserialize_data (serialize_data r) = Inr (PDict r) \<and> py_eq (PDict r) (PDict r)"
proof -
  let ?s = "json_dumps (PDict r)"
  have s: "skip_ws ?s = ?s" by (simp add: skip_ws_start is_ws_def)
  have "parse_value (Suc (2 * length ?s)) (?s @ []) = Inr (PDict r, [])"
    using assms by (intro parse_json_dumps(1)) (simp_all add: value_end_simps)
  then have "deserialize_data ?s = Inr (PDict r)"
    unfolding deserialize_data_def s by (simp del: parse_value.simps add: skip_ws_def)
  then show ?thesis using py_eq_refl(1)[OF assms] by (simp add: serialize_data_def)
qed

theorem codec_round_trip_witness:
  "deserialize_data (serialize_data
      [(''role'', PStr ''user''), (''tags'', PList [PInt (- 12), PBool True, PNone]),
       (''meta'', PDict [(''n'', PInt 0)])])
   = Inr (PDict
      [(''role'', PStr ''user''), (''tags'', PList [PInt (- 12), PBool True, PNone]),
       (''meta'', PDict [(''n'', PInt 0)])])"
  using codec_round_trip
    [of "[(''role'', PStr ''user''), (''tags'', PList [PInt (- 12), PBool True, PNone]),
          (''meta'', PDict [(''n'', PInt 0)])]"]
  by simp

section \<open>Properties of the backend\<close>

subsection \<open>Lifecycle\<close>

text \<open>
  C5. After \<open>close\<close>, every \<open>store\<close>, \<open>retrieve\<close> and \<open>query\<close> on the backend
  fails with \<open>sqlite3.ProgrammingError\<close>, the error of an operation on a closed
  connection (the specification names it \<open>ClosedBackendError\<close>); none of them is a
  silent no-op. A second \<open>close\<close> does not fail and leaves the closed state as it is.
\<close>

theorem closed_backend_guard:
  assumes "close s = Inr s'"
  shows "store now s' mid k d = Inl ProgrammingError \<and>
         retrieve s' mid k = Inl ProgrammingError \<and>
         query s' mid filters = Inl ProgrammingError \<and>
         close s' = Inr s'"
proof -
  from assms have s': "s' = s\<lparr>conn_closed := True\<rparr>" by (simp add: close_def)
  then have c: "conn_closed s'" by simp
  have "close s' = Inr s'" using s' by (simp add: close_def)
  then show ?thesis using c by (simp add: store_def retrieve_def query_def)
qed

theorem closed_backend_guard_witness:
  "store 7 (\<lparr>conn_closed = True, memories = [(''ns'', 1)],
     memory_data =
       [\<lparr>row_memory_id = ''ns'', row_key = ''a'', row_data = ''{}'',
          row_created_at = 1, row_updated_at = 1\<rparr>,
        \<lparr>row_memory_id = ''ns'', row_key = ''b'', row_data = ''not json'',
          row_created_at = 2, row_updated_at = 2\<rparr>]\<rparr>) ''ns'' ''a'' [] = Inl ProgrammingError \<and>
   retrieve (\<lparr>conn_closed = True, memories = [(''ns'', 1)],
     memory_data =
       [\<lparr>row_memory_id = ''ns'', row_key = ''a'', row_data = ''{}'',
          row_created_at = 1, row_updated_at = 1\<rparr>,
        \<lparr>row_memory_id = ''ns'', row_key = ''b'', row_data = ''not json'',
          row_created_at = 2, row_updated_at = 2\<rparr>]\<rparr>) ''ns'' ''a'' = Inl ProgrammingError \<and>
   query (\<lparr>conn_closed = True, memories = [(''ns'', 1)],
     memory_data =
       [\<lparr>row_memory_id = ''ns'', row_key = ''a'', row_data = ''{}'',
          row_created_at = 1, row_updated_at = 1\<rparr>,
        \<lparr>row_memory_id = ''ns'', row_key = ''b'', row_data = ''not json'',
          row_created_at = 2, row_updated_at = 2\<rparr>]\<rparr>) ''ns'' [] = Inl ProgrammingError \<and>
   close (\<lparr>conn_closed = True, memories = [(''ns'', 1)],
     memory_data =
       [\<lparr>row_memory_id = ''ns'', row_key = ''a'', row_data = ''{}'',
          row_created_at = 1, row_updated_at = 1\<rparr>,
        \<lparr>row_memory_id = ''ns'', row_key = ''b'', row_data = ''not json'',
          row_created_at = 2, row_updated_at = 2\<rparr>]\<rparr>) = Inr (\<lparr>conn_closed = True, memories = [(''ns'', 1)],
     memory_data =
       [\<lparr>row_memory_id = ''ns'', row_key = ''a'', row_data = ''{}'',
          row_created_at = 1, row_updated_at = 1\<rparr>,
        \<lparr>row_memory_id = ''ns'', row_key = ''b'', row_data = ''not json'',
          row_created_at = 2, row_updated_at = 2\<rparr>]\<rparr>)"
  using closed_backend_guard [of "\<lparr>conn_closed = False, memories = [(''ns'', 1)],
     memory_data =
       [\<lparr>row_memory_id = ''ns'', row_key = ''a'', row_data = ''{}'',
          row_created_at = 1, row_updated_at = 1\<rparr>,
        \<lparr>row_memory_id = ''ns'', row_key = ''b'', row_data = ''not json'',
          row_created_at = 2, row_updated_at = 2\<rparr>]\<rparr>" "\<lparr>conn_closed = True, memories = [(''ns'', 1)],
     memory_data =
       [\<lparr>row_memory_id = ''ns'', row_key = ''a'', row_data = ''{}'',
          row_created_at = 1, row_updated_at = 1\<rparr>,
        \<lparr>row_memory_id = ''ns'', row_key = ''b'', row_data = ''not json'',
          row_created_at = 2, row_updated_at = 2\<rparr>]\<rparr>" 7 "''ns''" "''a''" "[]" "[]"]
  by (simp add: close_def)

subsection \<open>Enumeration\<close>

lemma deserialize_rows_undecodable:
  assumes "r \<in> set rows" "deserialize_data (row_data r) = Inl e"
  shows "\<exists>r'\<in>set rows. \<exists>e'. deserialize_data (row_data r') = Inl e' \<and> deserialize_rows rows = Inl e'"
  using assms
proof (induction rows)
  case Nil then show ?case by simp
next
  case (Cons row rows)
  show ?case
  proof (cases "deserialize_data (row_data row)")
    case (Inl e')
    then have "deserialize_rows (row # rows) = Inl e'" by simp
    with Inl show ?thesis by auto
  next
    case (Inr v)
    with Cons.prems have "r \<in> set rows" by auto
    from Cons.IH[OF this Cons.prems(2)] obtain r' e' where
      r': "r' \<in> set rows" "deserialize_data (row_data r') = Inl e'" "deserialize_rows rows = Inl e'"
      by blast
    then have "deserialize_rows (row # rows) = Inl e'" using Inr by simp
    with r' show ?thesis by auto
  qed
qed

lemma deserialize_rows_decodable:
  assumes "\<forall>r\<in>set rows. \<exists>v. deserialize_data (row_data r) = Inr v"
  shows "\<exists>vs. deserialize_rows rows = Inr vs \<and>
           map Inr vs = map (\<lambda>r. deserialize_data (row_data r)) rows"
  using assms
proof (induction rows)
  case Nil then show ?case by simp
next
  case (Cons row rows)
  then obtain v where v: "deserialize_data (row_data row) = Inr v" by auto
  from Cons obtain vs where vs: "deserialize_rows rows = Inr vs"
    "map Inr vs = map (\<lambda>r. deserialize_data (row_data r)) rows" by auto
  have "deserialize_rows (row # rows) = Inr (v # vs)" using v vs(1) by simp
  moreover have "map Inr (v # vs) = map (\<lambda>r. deserialize_data (row_data r)) (row # rows)"
    using v vs(2) by simp
  ultimately show ?case by blast
qed

text \<open>
  C4, as the code has it. A query over a \<open>memory_id\<close> that holds a row whose payload
  \<open>deserialize_data\<close> cannot decode fails with the decode error of such a row, whatever
  the filters, and returns no rows. When every row of the \<open>memory_id\<close> decodes, a query
  with no filters returns the decoded rows in stored order.
\<close>

theorem query_aborts_on_undecodable_row:
  assumes "\<not> conn_closed s"
  shows "((\<exists>r\<in>set (memory_data s). row_memory_id r = mid \<and>
             deserialize_data (row_data r) = Inl JSONDecodeError) \<longrightarrow>
          (\<exists>r'\<in>set (memory_data s). row_memory_id r' = mid \<and>
             (\<exists>e'. deserialize_data (row_data r') = Inl e' \<and> query s mid filters = Inl e'))) \<and>
         ((\<forall>r\<in>set (memory_data s). row_memory_id r = mid \<longrightarrow>
             (\<exists>v. deserialize_data (row_data r) = Inr v)) \<longrightarrow>
          (\<exists>vs. query s mid [] = Inr vs \<and>
             map Inr vs = map (\<lambda>r. deserialize_data (row_data r))
                            (filter (\<lambda>r. row_memory_id r = mid) (memory_data s))))"
proof (intro conjI impI)
  let ?rows = "filter (\<lambda>r. row_memory_id r = mid) (memory_data s)"
  assume "\<exists>r\<in>set (memory_data s). row_memory_id r = mid \<and> deserialize_data (row_data r) = Inl JSONDecodeError"
  then obtain r e where "r \<in> set ?rows" "deserialize_data (row_data r) = Inl e" by auto
  from deserialize_rows_undecodable[OF this] obtain r' e' where
    r': "r' \<in> set ?rows" "deserialize_data (row_data r') = Inl e'" "deserialize_rows ?rows = Inl e'"
    by blast
  have "query s mid filters = Inl e'" using assms r'(3) by (simp add: query_def)
  with r' show "\<exists>r'\<in>set (memory_data s). row_memory_id r' = mid \<and>
             (\<exists>e'. deserialize_data (row_data r') = Inl e' \<and> query s mid filters = Inl e')"
    by auto
next
  let ?rows = "filter (\<lambda>r. row_memory_id r = mid) (memory_data s)"
  assume "\<forall>r\<in>set (memory_data s). row_memory_id r = mid \<longrightarrow> (\<exists>v. deserialize_data (row_data r) = Inr v)"
  then have "\<forall>r\<in>set ?rows. \<exists>v. deserialize_data (row_data r) = Inr v" by simp
  from deserialize_rows_decodable[OF this] obtain vs where
    vs: "deserialize_rows ?rows = Inr vs" "map Inr vs = map (\<lambda>r. deserialize_data (row_data r)) ?rows"
    by blast
  have "query s mid [] = Inr vs" using assms vs(1) by (simp add: query_def)
  with vs(2) show "\<exists>vs. query s mid [] = Inr vs \<and>
             map Inr vs = map (\<lambda>r. deserialize_data (row_data r)) ?rows" by blast
qed

theorem query_aborts_on_undecodable_row_witness:
  "\<exists>r'\<in>set (memory_data (\<lparr>conn_closed = False, memories = [(''ns'', 1)],
     memory_data =
       [\<lparr>row_memory_id = ''ns'', row_key = ''a'', row_data = ''{}'',
          row_created_at = 1, row_updated_at = 1\<rparr>,
        \<lparr>row_memory_id = ''ns'', row_key = ''b'', row_data = ''not json'',
          row_created_at = 2, row_updated_at = 2\<rparr>]\<rparr>)). row_memory_id r' = ''ns'' \<and>
      (\<exists>e'. deserialize_data (row_data r') = Inl e' \<and> query (\<lparr>conn_closed = False, memories = [(''ns'', 1)],
     memory_data =
       [\<lparr>row_memory_id = ''ns'', row_key = ''a'', row_data = ''{}'',
          row_created_at = 1, row_updated_at = 1\<rparr>,
        \<lparr>row_memory_id = ''ns'', row_key = ''b'', row_data = ''not json'',
          row_created_at = 2, row_updated_at = 2\<rparr>]\<rparr>) ''ns'' [] = Inl e')"
proof -
  have bad: "deserialize_data ''not json'' = Inl JSONDecodeError" by code_simp
  have "\<exists>r\<in>set (memory_data (\<lparr>conn_closed = False, memories = [(''ns'', 1)],
     memory_data =
       [\<lparr>row_memory_id = ''ns'', row_key = ''a'', row_data = ''{}'',
          row_created_at = 1, row_updated_at = 1\<rparr>,
        \<lparr>row_memory_id = ''ns'', row_key = ''b'', row_data = ''not json'',
          row_created_at = 2, row_updated_at = 2\<rparr>]\<rparr>)). row_memory_id r = ''ns'' \<and>
          deserialize_data (row_data r) = Inl JSONDecodeError"
    using bad by simp
  moreover have "\<not> conn_closed (\<lparr>conn_closed = False, memories = [(''ns'', 1)],
     memory_data =
       [\<lparr>row_memory_id = ''ns'', row_key = ''a'', row_data = ''{}'',
          row_created_at = 1, row_updated_at = 1\<rparr>,
        \<lparr>row_memory_id = ''ns'', row_key = ''b'', row_data = ''not json'',
          row_created_at = 2, row_updated_at = 2\<rparr>]\<rparr>)" by simp
  ultimately show ?thesis
    using query_aborts_on_undecodable_row [of "\<lparr>conn_closed = False, memories = [(''ns'', 1)],
     memory_data =
       [\<lparr>row_memory_id = ''ns'', row_key = ''a'', row_data = ''{}'',
          row_created_at = 1, row_updated_at = 1\<rparr>,
        \<lparr>row_memory_id = ''ns'', row_key = ''b'', row_data = ''not json'',
          row_created_at = 2, row_updated_at = 2\<rparr>]\<rparr>" "''ns''" "[]"] by blast
qed

text \<open>
  The claim C4 as stated fails: the \<open>memory_id\<close> below holds one decodable row and one
  row whose payload is not JSON, and the query raises instead of returning the decoded row.
\<close>

theorem query_undecodable_row_counterexample:
  "query \<lparr>conn_closed = False, memories = [(''ns'', 1)],
     memory_data =
       [\<lparr>row_memory_id = ''ns'', row_key = ''a'', row_data = ''{}'',
          row_created_at = 1, row_updated_at = 1\<rparr>,
        \<lparr>row_memory_id = ''ns'', row_key = ''b'', row_data = ''not json'',
          row_created_at = 2, row_updated_at = 2\<rparr>]\<rparr> ''ns'' [] = Inl JSONDecodeError"
  by code_simp

subsection \<open>Writing and deleting rows\<close>

lemma find_row_None: "find_row s mid k = None \<longleftrightarrow> \<not> (\<exists>r\<in>set (memory_data s). is_row mid k r)"
  by (auto simp: find_row_def find_None_iff)

lemma find_map_update:
  assumes "\<And>r. is_row mid k (f r) = is_row mid k r"
  shows "find (is_row mid k) (map f rows) = map_option f (find (is_row mid k) rows)"
  by (induction rows) (simp_all add: assms)

lemma find_map_other:
  assumes "\<And>r. is_row mid' k' r \<Longrightarrow> f r = r" "\<And>r. is_row mid' k' (f r) = is_row mid' k' r"
  shows "find (is_row mid' k') (map f rows) = find (is_row mid' k') rows"
  by (induction rows) (simp_all add: assms)

lemma find_append_fresh:
  "find P rows = None \<Longrightarrow> find P (rows @ [r]) = (if P r then Some r else None)"
  by (induction rows) (auto split: if_splits)

lemma is_row_update [simp]:
  "is_row mid k (r\<lparr>row_data := x, row_updated_at := t\<rparr>) = is_row mid k r"
  by (simp add: is_row_def)

lemma filter_map_others:
  assumes "\<And>r. P r \<Longrightarrow> f r = r" "\<And>r. P (f r) = P r"
  shows "filter P (map f rows) = filter P rows"
  by (induction rows) (simp_all add: assms)

lemma store_existing:
  assumes "\<not> conn_closed s" "store now s mid k d = Inr s'" "find_row s mid k = Some r"
  shows "find_row s' mid k = Some (r\<lparr>row_data := serialize_data d, row_updated_at := now\<rparr>)"
    and "length (memory_data s') = length (memory_data s)"
    and "filter (\<lambda>r. \<not> is_row mid k r) (memory_data s')
           = filter (\<lambda>r. \<not> is_row mid k r) (memory_data s)"
proof -
  let ?f = "\<lambda>r. if is_row mid k r then r\<lparr>row_data := serialize_data d, row_updated_at := now\<rparr> else r"
  have ex: "\<exists>r\<in>set (memory_data s). is_row mid k r"
    using assms(3) find_row_None[of s mid k] by simp
  have md: "memory_data s' = map ?f (memory_data s)"
    using assms(1,2) ex by (auto simp: store_def Let_def)
  have r: "is_row mid k r" using assms(3) by (auto simp: find_row_def find_Some_iff)
  have "find (is_row mid k) (map ?f (memory_data s)) = map_option ?f (find (is_row mid k) (memory_data s))"
    by (rule find_map_update) simp
  then show "find_row s' mid k = Some (r\<lparr>row_data := serialize_data d, row_updated_at := now\<rparr>)"
    using assms(3) r md by (simp add: find_row_def)
  show "length (memory_data s') = length (memory_data s)" by (simp add: md)
  have "filter (\<lambda>r. \<not> is_row mid k r) (map ?f (memory_data s))
                = filter (\<lambda>r. \<not> is_row mid k r) (memory_data s)"
    by (rule filter_map_others) simp_all
  then show "filter (\<lambda>r. \<not> is_row mid k r) (memory_data s')
           = filter (\<lambda>r. \<not> is_row mid k r) (memory_data s)" by (simp add: md)
qed

lemma store_new:
  assumes "\<not> conn_closed s" "store now s mid k d = Inr s'" "find_row s mid k = None"
  shows "find_row s' mid k =
           Some \<lparr>row_memory_id = mid, row_key = k, row_data = serialize_data d,
                 row_created_at = now, row_updated_at = now\<rparr>"
    and "length (memory_data s') = Suc (length (memory_data s))"
    and "filter (\<lambda>r. \<not> is_row mid k r) (memory_data s')
           = filter (\<lambda>r. \<not> is_row mid k r) (memory_data s)"
proof -
  let ?new = "\<lparr>row_memory_id = mid, row_key = k, row_data = serialize_data d,
                        row_created_at = now, row_updated_at = now\<rparr>"
  have ex: "\<not> (\<exists>r\<in>set (memory_data s). is_row mid k r)"
    using assms(3) find_row_None[of s mid k] by simp
  have md: "memory_data s' = memory_data s @ [?new]"
    using assms(1,2) ex by (auto simp: store_def Let_def)
  have new: "is_row mid k ?new" by (simp add: is_row_def)
  have "find (is_row mid k) (memory_data s @ [?new]) = (if is_row mid k ?new then Some ?new else None)"
    using assms(3) by (intro find_append_fresh) (simp add: find_row_def)
  then show "find_row s' mid k = Some ?new" using new md by (simp add: find_row_def)
  show "length (memory_data s') = Suc (length (memory_data s))" by (simp add: md)
  show "filter (\<lambda>r. \<not> is_row mid k r) (memory_data s')
           = filter (\<lambda>r. \<not> is_row mid k r) (memory_data s)" using new by (simp add: md)
qed

lemma store_open:
  assumes "\<not> conn_closed s"
  shows "\<exists>s'. store now s mid k d = Inr s'"
  using assms by (simp add: store_def Let_def)

lemma store_tracking:
  assumes "\<not> conn_closed s" "store now s mid k d = Inr s'"
  shows "\<not> conn_closed s'"
    and "memories s' = (if mid \<in> fst ` set (memories s) then memories s
                        else memories s @ [(mid, now)])"
  using assms by (auto simp: store_def Let_def split: if_splits)

text \<open>The operations keep \<open>UNIQUE(memory_id, key)\<close>.\<close>

lemma store_unique_keys:
  assumes "unique_keys s" "store now s mid k d = Inr s'"
  shows "unique_keys s'"
proof (cases "\<exists>r\<in>set (memory_data s). is_row mid k r")
  case True
  let ?f = "\<lambda>r. if is_row mid k r then r\<lparr>row_data := serialize_data d, row_updated_at := now\<rparr> else r"
  have md: "memory_data s' = map ?f (memory_data s)"
    using assms(2) True by (auto simp: store_def Let_def split: if_splits)
  have "(\<lambda>r. (row_memory_id r, row_key r)) \<circ> ?f = (\<lambda>r. (row_memory_id r, row_key r))"
    by (rule ext) simp
  then have "map (\<lambda>r. (row_memory_id r, row_key r)) (memory_data s')
        = map (\<lambda>r. (row_memory_id r, row_key r)) (memory_data s)"
    unfolding md map_map by (rule arg_cong)
  then show ?thesis using assms(1) unfolding unique_keys_def by (rule ssubst)
next
  case False
  have md: "memory_data s' = memory_data s @
       [\<lparr>row_memory_id = mid, row_key = k, row_data = serialize_data d,
         row_created_at = now, row_updated_at = now\<rparr>]"
    using assms(2) False by (auto simp: store_def Let_def split: if_splits)
  have "(mid, k) \<notin> set (map (\<lambda>r. (row_memory_id r, row_key r)) (memory_data s))"
    using False by (auto simp: is_row_def)
  then show ?thesis using assms(1) md by (simp add: unique_keys_def)
qed

lemma delete_unique_keys:
  assumes "unique_keys s" "delete s mid k = Inr (b, s')"
  shows "unique_keys s'"
proof -
  have "memory_data s' = filter (\<lambda>r. \<not> is_row mid k r) (memory_data s)"
    using assms(2) by (auto simp: delete_def split: if_splits)
  then show ?thesis using assms(1) by (simp add: unique_keys_def distinct_map_filter)
qed

text \<open>
  C6. On an open backend \<open>store\<close> succeeds. Every row of another key or another
  \<open>memory_id\<close> stays as it is. If the pair of \<open>memory_id\<close> and \<open>key\<close> has a row,
  that row gets the new payload and \<open>updated_at = now\<close> and keeps \<open>created_at\<close>, and
  no row is added; if it has none, a row with the payload and both times \<open>now\<close> is added.
  The entry of the \<open>memory_id\<close> in \<open>memories\<close> is added if it is not there, and no
  other entry changes.
\<close>

theorem store_replaces_row:
  assumes "\<not> conn_closed s"
  shows "\<exists>s'. store now s mid k d = Inr s' \<and> \<not> conn_closed s' \<and>
           filter (\<lambda>r. \<not> is_row mid k r) (memory_data s')
             = filter (\<lambda>r. \<not> is_row mid k r) (memory_data s) \<and>
           (\<forall>r. find_row s mid k = Some r \<longrightarrow>
                find_row s' mid k = Some (r\<lparr>row_data := serialize_data d, row_updated_at := now\<rparr>) \<and>
                length (memory_data s') = length (memory_data s)) \<and>
           (find_row s mid k = None \<longrightarrow>
                find_row s' mid k =
                  Some \<lparr>row_memory_id = mid, row_key = k, row_data = serialize_data d,
                        row_created_at = now, row_updated_at = now\<rparr> \<and>
                length (memory_data s') = Suc (length (memory_data s))) \<and>
           memories s' = (if mid \<in> fst ` set (memories s) then memories s
                          else memories s @ [(mid, now)])"
proof -
  from store_open[OF assms] obtain s' where st: "store now s mid k d = Inr s'" by blast
  have 1: "\<not> conn_closed s'" using assms st by (rule store_tracking(1))
  have 2: "memories s' = (if mid \<in> fst ` set (memories s) then memories s
                          else memories s @ [(mid, now)])"
    using assms st by (rule store_tracking(2))
  have 3: "filter (\<lambda>r. \<not> is_row mid k r) (memory_data s')
             = filter (\<lambda>r. \<not> is_row mid k r) (memory_data s)"
  proof (cases "find_row s mid k")
    case None with assms st show ?thesis by (rule store_new(3))
  next
    case (Some r) with assms st show ?thesis by (rule store_existing(3))
  qed
  have 4: "\<forall>r. find_row s mid k = Some r \<longrightarrow>
                find_row s' mid k = Some (r\<lparr>row_data := serialize_data d, row_updated_at := now\<rparr>) \<and>
                length (memory_data s') = length (memory_data s)"
    using store_existing(1,2)[OF assms st] by blast
  have 5: "find_row s mid k = None \<longrightarrow>
                find_row s' mid k =
                  Some \<lparr>row_memory_id = mid, row_key = k, row_data = serialize_data d,
                        row_created_at = now, row_updated_at = now\<rparr> \<and>
                length (memory_data s') = Suc (length (memory_data s))"
    using store_new(1,2)[OF assms st] by blast
  show ?thesis
    by (rule exI[of _ s']) (intro conjI st 1 2 3 4 5)
qed

theorem store_replaces_row_witness:
  "\<exists>s'. store 5 (\<lparr>conn_closed = False, memories = [(''ns'', 1)],
     memory_data =
       [\<lparr>row_memory_id = ''ns'', row_key = ''a'', row_data = ''{}'',
          row_created_at = 1, row_updated_at = 1\<rparr>,
        \<lparr>row_memory_id = ''ns'', row_key = ''b'', row_data = ''not json'',
          row_created_at = 2, row_updated_at = 2\<rparr>]\<rparr>) ''ns'' ''a'' [(''x'', PInt 1)] = Inr s' \<and>
      find_row s' ''ns'' ''a'' =
        Some \<lparr>row_memory_id = ''ns'', row_key = ''a'',
              row_data = serialize_data [(''x'', PInt 1)],
              row_created_at = 1, row_updated_at = 5\<rparr> \<and>
      length (memory_data s') = 2"
proof -
  have f: "find_row (\<lparr>conn_closed = False, memories = [(''ns'', 1)],
     memory_data =
       [\<lparr>row_memory_id = ''ns'', row_key = ''a'', row_data = ''{}'',
          row_created_at = 1, row_updated_at = 1\<rparr>,
        \<lparr>row_memory_id = ''ns'', row_key = ''b'', row_data = ''not json'',
          row_created_at = 2, row_updated_at = 2\<rparr>]\<rparr>) ''ns'' ''a'' =
        Some \<lparr>row_memory_id = ''ns'', row_key = ''a'', row_data = ''{}'',
          row_created_at = 1, row_updated_at = 1\<rparr>"
    by (simp add: find_row_def is_row_def)
  have o: "\<not> conn_closed (\<lparr>conn_closed = False, memories = [(''ns'', 1)],
     memory_data =
       [\<lparr>row_memory_id = ''ns'', row_key = ''a'', row_data = ''{}'',
          row_created_at = 1, row_updated_at = 1\<rparr>,
        \<lparr>row_memory_id = ''ns'', row_key = ''b'', row_data = ''not json'',
          row_created_at = 2, row_updated_at = 2\<rparr>]\<rparr>)" by simp
  from store_replaces_row [OF o, of 5 "''ns''" "''a''" "[(''x'', PInt 1)]"]
  obtain s' where s': "store 5 (\<lparr>conn_closed = False, memories = [(''ns'', 1)],
     memory_data =
       [\<lparr>row_memory_id = ''ns'', row_key = ''a'', row_data = ''{}'',
          row_created_at = 1, row_updated_at = 1\<rparr>,
        \<lparr>row_memory_id = ''ns'', row_key = ''b'', row_data = ''not json'',
          row_created_at = 2, row_updated_at = 2\<rparr>]\<rparr>) ''ns'' ''a'' [(''x'', PInt 1)] = Inr s'"
    and u: "\<forall>r. find_row (\<lparr>conn_closed = False, memories = [(''ns'', 1)],
     memory_data =
       [\<lparr>row_memory_id = ''ns'', row_key = ''a'', row_data = ''{}'',
          row_created_at = 1, row_updated_at = 1\<rparr>,
        \<lparr>row_memory_id = ''ns'', row_key = ''b'', row_data = ''not json'',
          row_created_at = 2, row_updated_at = 2\<rparr>]\<rparr>) ''ns'' ''a'' = Some r \<longrightarrow>
              find_row s' ''ns'' ''a'' =
                Some (r\<lparr>row_data := serialize_data [(''x'', PInt 1)], row_updated_at := 5\<rparr>) \<and>
              length (memory_data s') = length (memory_data (\<lparr>conn_closed = False, memories = [(''ns'', 1)],
     memory_data =
       [\<lparr>row_memory_id = ''ns'', row_key = ''a'', row_data = ''{}'',
          row_created_at = 1, row_updated_at = 1\<rparr>,
        \<lparr>row_memory_id = ''ns'', row_key = ''b'', row_data = ''not json'',
          row_created_at = 2, row_updated_at = 2\<rparr>]\<rparr>))"
    by blast
  from u f have "find_row s' ''ns'' ''a'' =
        Some \<lparr>row_memory_id = ''ns'', row_key = ''a'',
              row_data = serialize_data [(''x'', PInt 1)],
              row_created_at = 1, row_updated_at = 5\<rparr> \<and>
      length (memory_data s') = 2" by simp
  with s' show ?thesis by blast
qed

text \<open>
  C9. On an open backend \<open>delete\<close> never fails: it returns whether the pair had a row,
  removes it and keeps every other row. A second \<open>delete\<close> of the same pair returns
  \<open>False\<close> and the state it was given.
\<close>

theorem delete_idempotent:
  assumes "\<not> conn_closed s"
  shows "\<exists>s1. delete s mid k = Inr (find_row s mid k \<noteq> None, s1) \<and>
           memory_data s1 = filter (\<lambda>r. \<not> is_row mid k r) (memory_data s) \<and>
           memories s1 = memories s \<and>
           find_row s1 mid k = None \<and>
           delete s1 mid k = Inr (False, s1)"
proof -
  let ?s1 = "s\<lparr>memory_data := filter (\<lambda>r. \<not> is_row mid k r) (memory_data s)\<rparr>"
  have b: "(0 < length (filter (is_row mid k) (memory_data s))) = (find_row s mid k \<noteq> None)"
    by (auto simp: find_row_None filter_empty_conv)
  have 1: "delete s mid k = Inr (find_row s mid k \<noteq> None, ?s1)"
    using assms b by (simp add: delete_def)
  have 2: "find_row ?s1 mid k = None" by (simp add: find_row_None)
  have "filter (is_row mid k) (memory_data ?s1) = []" by (simp add: filter_empty_conv)
  moreover have "filter (\<lambda>r. \<not> is_row mid k r) (memory_data ?s1) = memory_data ?s1" by simp
  ultimately have 3: "delete ?s1 mid k = Inr (False, ?s1)" using assms by (simp add: delete_def)
  show ?thesis using 1 2 3 by (intro exI[of _ ?s1]) simp
qed

theorem delete_idempotent_witness:
  "\<exists>s1. delete (\<lparr>conn_closed = False, memories = [(''ns'', 1)],
     memory_data =
       [\<lparr>row_memory_id = ''ns'', row_key = ''a'', row_data = ''{}'',
          row_created_at = 1, row_updated_at = 1\<rparr>,
        \<lparr>row_memory_id = ''ns'', row_key = ''b'', row_data = ''not json'',
          row_created_at = 2, row_updated_at = 2\<rparr>]\<rparr>) ''ns'' ''a'' = Inr (True, s1) \<and> delete s1 ''ns'' ''a'' = Inr (False, s1)"
proof -
  have f: "find_row (\<lparr>conn_closed = False, memories = [(''ns'', 1)],
     memory_data =
       [\<lparr>row_memory_id = ''ns'', row_key = ''a'', row_data = ''{}'',
          row_created_at = 1, row_updated_at = 1\<rparr>,
        \<lparr>row_memory_id = ''ns'', row_key = ''b'', row_data = ''not json'',
          row_created_at = 2, row_updated_at = 2\<rparr>]\<rparr>) ''ns'' ''a'' \<noteq> None"
    by (simp add: find_row_def is_row_def)
  have o: "\<not> conn_closed (\<lparr>conn_closed = False, memories = [(''ns'', 1)],
     memory_data =
       [\<lparr>row_memory_id = ''ns'', row_key = ''a'', row_data = ''{}'',
          row_created_at = 1, row_updated_at = 1\<rparr>,
        \<lparr>row_memory_id = ''ns'', row_key = ''b'', row_data = ''not json'',
          row_created_at = 2, row_updated_at = 2\<rparr>]\<rparr>)" by simp
  from delete_idempotent [OF o, of "''ns''" "''a''"] f show ?thesis by auto
qed

end
